theory Spec2Isabelle
  imports Main
begin

text \<open>
  A shallow embedding of \<open>maxflow_mincut.cc\<close>: the Ford--Fulkerson loop with a
  breadth-first search for the augmenting path, and the minimum cut read off the
  residual graph it leaves. The first sections translate the source, function by
  function; the later ones state and prove what the functions compute.
\<close>

section \<open>Constants of maxflow\_mincut.cc\<close>

abbreviation (input) SOURCE_NODE_ID :: nat where "SOURCE_NODE_ID \<equiv> 0"
abbreviation (input) TARGET_NODE_ID :: nat where "TARGET_NODE_ID \<equiv> 5"
abbreviation (input) NODE_COUNT :: nat where "NODE_COUNT \<equiv> 6"
abbreviation (input) INVALID_PARENT :: int where "INVALID_PARENT \<equiv> - 1"
abbreviation (input) INT_MAX :: int where "INT_MAX \<equiv> 2147483647"
abbreviation (input) INT_MIN :: int where "INT_MIN \<equiv> - 2147483648"

definition nodeName :: "string list" where
  "nodeName = [''s'', ''w'', ''x'', ''z'', ''y'', ''t'']"

section \<open>Machine integers and vector accesses\<close>

text \<open>
  The C++ type \<open>int\<close> is a 32-bit two's complement integer. Values are kept as
  \<open>int\<close>; every addition and subtraction of the source is followed by \<open>int32\<close>,
  which wraps the mathematical result into the range \<open>INT_MIN .. INT_MAX\<close>
  (the result the usual compilers give where the language leaves overflow undefined).
\<close>

definition int32 :: "int \<Rightarrow> int" where
  "int32 x = (x + 2147483648) mod 4294967296 - 2147483648"

text \<open>
  \<open>OutOfRange\<close> is the exception \<open>std::out_of_range\<close> thrown by \<open>vector::at\<close>;
  \<open>UndefinedBehaviour\<close> is an access through \<open>operator[]\<close> outside the vector,
  or through a null pointer.
\<close>

datatype error = OutOfRange | UndefinedBehaviour

definition ebind :: "error + 'a \<Rightarrow> ('a \<Rightarrow> error + 'b) \<Rightarrow> error + 'b" where
  "ebind m f = (case m of Inl e \<Rightarrow> Inl e | Inr x \<Rightarrow> f x)"

definition at :: "'a list \<Rightarrow> nat \<Rightarrow> error + 'a" where
  "at xs i = (if i < length xs then Inr (xs ! i) else Inl OutOfRange)"

definition idx :: "'a list \<Rightarrow> int \<Rightarrow> error + 'a" where
  "idx xs i = (if 0 \<le> i \<and> i < int (length xs) then Inr (xs ! nat i)
               else Inl UndefinedBehaviour)"

section \<open>Classes\<close>

record residualGraphNode =
  node_id :: nat
  parent_id :: int

record residualGraphEdge =
  residual_capacity :: int
  original_capacity :: int

type_synonym graph = "residualGraphEdge list list"

definition edge :: "graph \<Rightarrow> int \<Rightarrow> int \<Rightarrow> error + residualGraphEdge" where
  "edge g u v = ebind (idx g u) (\<lambda>row. idx row v)"

definition getResidualCapacity :: "graph \<Rightarrow> int \<Rightarrow> int \<Rightarrow> error + int" where
  "getResidualCapacity g u v = ebind (edge g u v) (\<lambda>e. Inr (residual_capacity e))"

definition getOriginalCapacity :: "graph \<Rightarrow> int \<Rightarrow> int \<Rightarrow> error + int" where
  "getOriginalCapacity g u v = ebind (edge g u v) (\<lambda>e. Inr (original_capacity e))"

definition setResidualCapacity :: "graph \<Rightarrow> int \<Rightarrow> int \<Rightarrow> int \<Rightarrow> error + graph" where
  "setResidualCapacity g u v c =
     ebind (idx g u) (\<lambda>row. ebind (idx row v) (\<lambda>e.
       Inr (g[nat u := row[nat v := e\<lparr>residual_capacity := c\<rparr>]])))"

definition setOriginalCapacity :: "graph \<Rightarrow> int \<Rightarrow> int \<Rightarrow> int \<Rightarrow> error + graph" where
  "setOriginalCapacity g u v c =
     ebind (idx g u) (\<lambda>row. ebind (idx row v) (\<lambda>e.
       Inr (g[nat u := row[nat v := e\<lparr>original_capacity := c\<rparr>]])))"

section \<open>bfs\<close>

text \<open>
  The local state of \<open>bfs\<close>: the visited flags, the queue, and the caller's
  parent buffer (\<open>None\<close> when \<open>outPath\<close> is the null pointer).
\<close>

record bfs_state =
  trav :: "bool list"
  bfs_q :: "nat list"
  outPath :: "residualGraphNode list option"

text \<open>One round of the inner \<open>for\<close> loop (lines 97 to 108), for one \<open>next_node\<close>.\<close>

definition bfs_visit :: "graph \<Rightarrow> nat \<Rightarrow> bfs_state \<Rightarrow> nat \<Rightarrow> error + bfs_state" where
  "bfs_visit g node s next_node =
     ebind (at (trav s) next_node) (\<lambda>t.
       if t then Inr s
       else ebind (getResidualCapacity g (int node) (int next_node)) (\<lambda>r.
         if r > 0 then
           ebind (case outPath s of
                    None \<Rightarrow> Inr None
                  | Some p \<Rightarrow> ebind (at p next_node) (\<lambda>n.
                      Inr (Some (p[next_node := n\<lparr>parent_id := int node\<rparr>]))))
             (\<lambda>op. Inr (s\<lparr>trav := (trav s)[next_node := True],
                          bfs_q := bfs_q s @ [next_node],
                          outPath := op\<rparr>))
         else Inr s))"

fun for_each :: "('s \<Rightarrow> nat \<Rightarrow> error + 's) \<Rightarrow> nat list \<Rightarrow> 's \<Rightarrow> error + 's" where
  "for_each f [] s = Inr s"
| "for_each f (i # is) s = ebind (f s i) (for_each f is)"

text \<open>
  The \<open>while\<close> loop over the queue (lines 93 to 111). The number of unvisited
  nodes plus the length of the queue decreases in each round.
\<close>

definition unvisited :: "bfs_state \<Rightarrow> nat" where
  "unvisited s = length (filter Not (trav s)) + length (bfs_q s)"

lemma ebind_Inr_iff: "ebind m f = Inr y \<longleftrightarrow> (\<exists>x. m = Inr x \<and> f x = Inr y)"
  by (cases m) (simp_all add: ebind_def)

lemma ebind_simps [simp]: "ebind (Inr x) f = f x" "ebind (Inl e) f = Inl e"
  by (simp_all add: ebind_def)

lemma ebind_cong [fundef_cong]:
  "m = m' \<Longrightarrow> (\<And>x. m' = Inr x \<Longrightarrow> f x = f' x) \<Longrightarrow> ebind m f = ebind m' f'"
  by (cases m') (simp_all add: ebind_def)

lemma filter_Not_update:
  "i < length xs \<Longrightarrow> \<not> xs ! i \<Longrightarrow>
     Suc (length (filter Not (xs[i := True]))) = length (filter Not xs)"
proof (induction xs arbitrary: i)
  case Nil
  then show ?case by simp
next
  case (Cons x xs)
  then show ?case by (cases i) auto
qed

lemma bfs_visit_unvisited:
  "bfs_visit g node s i = Inr s' \<Longrightarrow> unvisited s' = unvisited s \<and> length (bfs_q s') \<ge> length (bfs_q s)"
  by (auto simp: bfs_visit_def at_def unvisited_def ebind_Inr_iff
      dest: filter_Not_update split: if_splits option.splits)

lemma for_each_visit_unvisited:
  "for_each (bfs_visit g node) is s = Inr s' \<Longrightarrow> unvisited s' = unvisited s"
proof (induction "is" arbitrary: s)
  case Nil
  then show ?case by simp
next
  case (Cons i "is")
  then show ?case
    by (auto simp: ebind_Inr_iff dest: bfs_visit_unvisited)
qed

function bfs_loop :: "graph \<Rightarrow> bfs_state \<Rightarrow> error + bfs_state" where
  "bfs_loop g s =
     (case bfs_q s of
        [] \<Rightarrow> Inr s
      | node # rest \<Rightarrow>
          ebind (for_each (bfs_visit g node) [0..<NODE_COUNT] (s\<lparr>bfs_q := rest\<rparr>))
            (bfs_loop g))"
  by pat_completeness auto
termination
proof (relation "measure (\<lambda>(g, s). unvisited s)")
  show "wf (measure (\<lambda>(g, s). unvisited s))" by simp
next
  fix g :: graph and s :: bfs_state and node rest s'
  assume q: "bfs_q s = node # rest"
    and f: "for_each (bfs_visit g node) [0..<NODE_COUNT] (s\<lparr>bfs_q := rest\<rparr>) = Inr s'"
  have "unvisited s' = unvisited (s\<lparr>bfs_q := rest\<rparr>)"
    using f by (rule for_each_visit_unvisited)
  also have "\<dots> < unvisited s"
    using q by (simp add: unvisited_def)
  finally show "((g, s'), (g, s)) \<in> measure (\<lambda>(g, s). unvisited s)" by simp
qed

declare bfs_loop.simps [simp del]

text \<open>
  The result of \<open>bfs\<close>: the returned flag and the three output buffers as the
  call leaves them.
\<close>

record bfs_result =
  reached :: bool
  sPath :: "nat list option"
  tPath :: "nat list option"
  parents :: "residualGraphNode list option"

text \<open>The partition loop of lines 121 to 127, for one node \<open>i\<close>.\<close>

definition bfs_partition :: "bool list \<Rightarrow> nat list \<times> nat list \<Rightarrow> nat \<Rightarrow> error + nat list \<times> nat list" where
  "bfs_partition tr st i =
     ebind (at tr i) (\<lambda>t.
       if t then Inr (fst st @ [i], snd st) else Inr (fst st, snd st @ [i]))"

definition bfs :: "graph \<Rightarrow> nat list option \<Rightarrow> nat list option \<Rightarrow>
    residualGraphNode list option \<Rightarrow> error + bfs_result" where
  "bfs g sP tP oP =
     (let tr = replicate NODE_COUNT False;
          s0 = \<lparr>trav = tr[SOURCE_NODE_ID := True], bfs_q = [SOURCE_NODE_ID], outPath = oP\<rparr>
      in ebind (bfs_loop g s0) (\<lambda>s.
           ebind (case (sP, tP) of
                    (Some sp, Some tp) \<Rightarrow>
                      ebind (for_each (bfs_partition (trav s)) [0..<NODE_COUNT] (sp, tp))
                        (\<lambda>(sp', tp'). Inr (Some sp', Some tp'))
                  | _ \<Rightarrow> Inr (sP, tP))
             (\<lambda>(sP', tP').
                ebind (at (trav s) TARGET_NODE_ID) (\<lambda>r.
                  Inr \<lparr>reached = r, sPath = sP', tPath = tP', parents = outPath s\<rparr>))))"

section \<open>fordFulkerson\<close>

text \<open>
  The first walk over the parent chain (lines 163 to 169). The loop has no bound of
  its own: it ends when the chain of parent ids reaches the source.
\<close>

partial_function (option) min_flow_walk ::
  "graph \<Rightarrow> residualGraphNode list \<Rightarrow> int \<Rightarrow> int \<Rightarrow> (error + int) option" where
  "min_flow_walk g path nid min_flow_in_path =
     (if nid = int SOURCE_NODE_ID then Some (Inr min_flow_in_path)
      else case idx path nid of
             Inl e \<Rightarrow> Some (Inl e)
           | Inr n \<Rightarrow>
               (case getResidualCapacity g (parent_id n) nid of
                  Inl e \<Rightarrow> Some (Inl e)
                | Inr r \<Rightarrow>
                    min_flow_walk g path (parent_id n)
                      (if min_flow_in_path > r then r else min_flow_in_path)))"

text \<open>The second walk (lines 173 to 188), which updates the edges and resets the parents.\<close>

partial_function (option) augment_walk ::
  "graph \<Rightarrow> residualGraphNode list \<Rightarrow> int \<Rightarrow> int \<Rightarrow>
     (error + graph \<times> residualGraphNode list) option" where
  "augment_walk g path nid min_flow_in_path =
     (if nid = int SOURCE_NODE_ID then Some (Inr (g, path))
      else case idx path nid of
             Inl e \<Rightarrow> Some (Inl e)
           | Inr n \<Rightarrow>
               (let parent_node_id = parent_id n;
                    path' = path[nat nid := n\<lparr>parent_id := INVALID_PARENT\<rparr>]
                in case ebind (getResidualCapacity g parent_node_id nid) (\<lambda>r.
                        ebind (setResidualCapacity g parent_node_id nid (int32 (r - min_flow_in_path))) (\<lambda>g1.
                        ebind (getResidualCapacity g1 nid parent_node_id) (\<lambda>r'.
                        setResidualCapacity g1 nid parent_node_id (int32 (r' + min_flow_in_path))))) of
                     Inl e \<Rightarrow> Some (Inl e)
                   | Inr g2 \<Rightarrow> augment_walk g2 path' parent_node_id min_flow_in_path))"

text \<open>
  One round of the \<open>while\<close> loop of lines 154 to 189: the call of \<open>bfs\<close> in
  the loop condition and, when it returns true, the loop body. \<open>Done\<close> is the exit
  of the loop; \<open>Augmented\<close> carries the graph and the parent buffer after the body
  and the bottleneck that was added to \<open>max_flow\<close>. Since \<open>bfs\<close> hands back the
  buffer it was given, the case \<open>None\<close> of \<open>parents\<close> does not occur here.
\<close>

datatype iteration =
  Done "residualGraphNode list"
| Augmented graph "residualGraphNode list" int

definition ff_iteration :: "graph \<Rightarrow> residualGraphNode list \<Rightarrow> (error + iteration) option" where
  "ff_iteration g augmentingPath =
     (case bfs g None None (Some augmentingPath) of
        Inl e \<Rightarrow> Some (Inl e)
      | Inr b \<Rightarrow>
          (case parents b of
             None \<Rightarrow> Some (Inl UndefinedBehaviour)
           | Some path \<Rightarrow>
               if \<not> reached b then Some (Inr (Done path))
               else
                 (case min_flow_walk g path (int TARGET_NODE_ID) INT_MAX of
                    None \<Rightarrow> None
                  | Some (Inl e) \<Rightarrow> Some (Inl e)
                  | Some (Inr min_flow_in_path) \<Rightarrow>
                      (case augment_walk g path (int TARGET_NODE_ID) min_flow_in_path of
                         None \<Rightarrow> None
                       | Some (Inl e) \<Rightarrow> Some (Inl e)
                       | Some (Inr (g', path')) \<Rightarrow>
                           Some (Inr (Augmented g' path' min_flow_in_path))))))"

partial_function (option) ff_loop ::
  "graph \<Rightarrow> residualGraphNode list \<Rightarrow> int \<Rightarrow> (error + graph \<times> residualGraphNode list \<times> int) option" where
  "ff_loop g augmentingPath max_flow =
     (case ff_iteration g augmentingPath of
        None \<Rightarrow> None
      | Some (Inl e) \<Rightarrow> Some (Inl e)
      | Some (Inr (Done path)) \<Rightarrow> Some (Inr (g, path, max_flow))
      | Some (Inr (Augmented g' path' min_flow_in_path)) \<Rightarrow>
          ff_loop g' path' (int32 (max_flow + min_flow_in_path)))"

declare min_flow_walk.simps [code] augment_walk.simps [code] ff_loop.simps [code]

text \<open>What the program writes to \<open>cout\<close>: string literals and integers.\<close>

datatype cout_item = Str string | Num int

definition edge_flow :: "graph \<Rightarrow> int \<Rightarrow> int \<Rightarrow> error + int" where
  "edge_flow g u v =
     ebind (getOriginalCapacity g u v) (\<lambda>c.
       ebind (getResidualCapacity g u v) (\<lambda>r. Inr (int32 (c - r))))"

definition flow_lines :: "(string \<times> int \<times> int) list" where
  "flow_lines =
     [(''Flow through s->w: '', 0, 1), (''Flow through s->x: '', 0, 2),
      (''Flow through s->z: '', 0, 3), (''Flow through w->y: '', 1, 4),
      (''Flow through w->t: '', 1, 5), (''Flow through x->w: '', 2, 1),
      (''Flow through x->z: '', 2, 3), (''Flow through x->y: '', 2, 4),
      (''Flow through z->y: '', 3, 4), (''Flow through z->t: '', 3, 5),
      (''Flow through y->w: '', 4, 5)]"

fun print_flows :: "graph \<Rightarrow> (string \<times> int \<times> int) list \<Rightarrow> error + cout_item list" where
  "print_flows g [] = Inr []"
| "print_flows g ((l, u, v) # ls) =
     ebind (edge_flow g u v) (\<lambda>f.
       ebind (print_flows g ls) (\<lambda>out. Inr ([Str l, Num f, Str ''\<newline>''] @ out)))"

text \<open>
  \<open>fordFulkerson\<close> returns the flow, the residual graph as the call leaves it
  (the argument is a reference) and the text written.
\<close>

definition fordFulkerson :: "graph \<Rightarrow> (error + int \<times> graph \<times> cout_item list) option" where
  "fordFulkerson residualGraph =
     (let augmentingPath = map (\<lambda>i. \<lparr>node_id = i, parent_id = INVALID_PARENT\<rparr>) [0..<NODE_COUNT]
      in case ff_loop residualGraph augmentingPath 0 of
           None \<Rightarrow> None
         | Some (Inl e) \<Rightarrow> Some (Inl e)
         | Some (Inr (g, path, max_flow)) \<Rightarrow>
             Some (ebind (print_flows g flow_lines) (\<lambda>out.
               Inr (max_flow, g,
                 Str ''Printing flows through all the edges that sum up to the maximum flow.\<newline>'' # out))))"

section \<open>findMinCut\<close>

definition print_names :: "nat list \<Rightarrow> error + cout_item list" where
  "print_names ns =
     for_each (\<lambda>out i. ebind (idx nodeName (int i)) (\<lambda>n. Inr (out @ [Str n, Str '' '']))) ns []"

definition findMinCut :: "graph \<Rightarrow> error + cout_item list" where
  "findMinCut g =
     ebind (bfs g (Some []) (Some []) None) (\<lambda>b.
       if reached b then
         Inr [Str ''The residual graph still has one or more augmenting paths. Failed to compute minimum s-t cut.\<newline>'']
       else
         (case (sPath b, tPath b) of
            (Some sp, Some tp) \<Rightarrow>
              ebind (print_names sp) (\<lambda>so.
                ebind (print_names tp) (\<lambda>to.
                  Inr ([Str ''\<newline>Minimum s-t cut \<newline>'', Str ''Nodes at the s side:\<newline>''] @ so @
                       [Str ''\<newline>'', Str ''Nodes at the t side:\<newline>''] @ to @ [Str ''\<newline>''])))
          | _ \<Rightarrow> Inl UndefinedBehaviour))"

section \<open>main\<close>

definition main_edges :: "(int \<times> int \<times> int) list" where
  "main_edges = [(0, 1, 4), (0, 2, 7), (0, 3, 10), (1, 4, 2), (1, 5, 10), (2, 1, 2),
     (2, 3, 2), (2, 4, 10), (3, 4, 2), (3, 5, 6), (4, 5, 7)]"

fun set_all :: "(graph \<Rightarrow> int \<Rightarrow> int \<Rightarrow> int \<Rightarrow> error + graph) \<Rightarrow> (int \<times> int \<times> int) list \<Rightarrow> graph \<Rightarrow> error + graph" where
  "set_all f [] g = Inr g"
| "set_all f ((u, v, c) # es) g = ebind (f g u v c) (set_all f es)"

definition main_graph :: "error + graph" where
  "main_graph =
     (let g0 = replicate NODE_COUNT (replicate NODE_COUNT \<lparr>residual_capacity = 0, original_capacity = 0\<rparr>)
      in ebind (set_all setResidualCapacity main_edges g0) (set_all setOriginalCapacity main_edges))"

definition main :: "(error + cout_item list \<times> int) option" where
  "main =
     (case main_graph of
        Inl e \<Rightarrow> Some (Inl e)
      | Inr graph \<Rightarrow>
          (case fordFulkerson graph of
             None \<Rightarrow> None
           | Some (Inl e) \<Rightarrow> Some (Inl e)
           | Some (Inr (flow, graph', out1)) \<Rightarrow>
               Some (ebind (findMinCut graph') (\<lambda>out2.
                 Inr ([Str ''Max flow found after running Ford Fulkerson algorithm: ''] @ out1 @
                      [Num flow, Str ''\<newline>''] @ out2, 0)))))"

section \<open>The graph as a table\<close>

text \<open>
  The residual and the original capacity of a pair of nodes, and a graph of
  \<open>NODE_COUNT\<close> rows of \<open>NODE_COUNT\<close> edges, on which no access of \<open>bfs\<close> or
  \<open>fordFulkerson\<close> leaves a vector.
\<close>

definition res :: "graph \<Rightarrow> nat \<Rightarrow> nat \<Rightarrow> int" where
  "res g u v = residual_capacity (g ! u ! v)"

definition orig :: "graph \<Rightarrow> nat \<Rightarrow> nat \<Rightarrow> int" where
  "orig g u v = original_capacity (g ! u ! v)"

definition square :: "graph \<Rightarrow> bool" where
  "square g \<longleftrightarrow> length g = NODE_COUNT \<and> (\<forall>u<NODE_COUNT. length (g ! u) = NODE_COUNT)"

definition set_res :: "graph \<Rightarrow> nat \<Rightarrow> nat \<Rightarrow> int \<Rightarrow> graph" where
  "set_res g u v c = g[u := (g ! u)[v := (g ! u ! v)\<lparr>residual_capacity := c\<rparr>]]"

lemma idx_int: "i < length xs \<Longrightarrow> idx xs (int i) = Inr (xs ! i)"
  by (simp add: idx_def)

lemma getResidualCapacity_square:
  "square g \<Longrightarrow> u < NODE_COUNT \<Longrightarrow> v < NODE_COUNT \<Longrightarrow>
     getResidualCapacity g (int u) (int v) = Inr (res g u v)"
  by (simp add: getResidualCapacity_def edge_def square_def idx_int res_def)

lemma getOriginalCapacity_square:
  "square g \<Longrightarrow> u < NODE_COUNT \<Longrightarrow> v < NODE_COUNT \<Longrightarrow>
     getOriginalCapacity g (int u) (int v) = Inr (orig g u v)"
  by (simp add: getOriginalCapacity_def edge_def square_def idx_int orig_def)

lemma setResidualCapacity_square:
  "square g \<Longrightarrow> u < NODE_COUNT \<Longrightarrow> v < NODE_COUNT \<Longrightarrow>
     setResidualCapacity g (int u) (int v) c = Inr (set_res g u v c)"
  by (simp add: setResidualCapacity_def square_def idx_int set_res_def)

lemma square_set_res: "square g \<Longrightarrow> square (set_res g u v c)"
  by (cases "u < length g") (auto simp: square_def set_res_def nth_list_update)

lemma res_set_res:
  "square g \<Longrightarrow> u < NODE_COUNT \<Longrightarrow> v < NODE_COUNT \<Longrightarrow>
     res (set_res g u v c) a b = (if a = u \<and> b = v then c else res g a b)"
  by (auto simp: square_def set_res_def res_def nth_list_update)

lemma orig_set_res: "orig (set_res g u v c) a b = orig g a b"
proof (cases "u < length g")
  case False
  then have "length g \<le> u" by simp
  then have "set_res g u v c = g" unfolding set_res_def by (rule list_update_beyond)
  then show ?thesis by simp
next
  case u: True
  show ?thesis
  proof (cases "v < length (g ! u)")
    case False
    then have "length (g ! u) \<le> v" by simp
    then have "(g ! u)[v := (g ! u ! v)\<lparr>residual_capacity := c\<rparr>] = g ! u"
      by (rule list_update_beyond)
    then have "set_res g u v c = g" by (simp add: set_res_def)
    then show ?thesis by simp
  next
    case True
    with u show ?thesis
      by (cases "a = u"; cases "b = v") (auto simp: set_res_def orig_def nth_list_update)
  qed
qed

section \<open>What bfs computes\<close>

definition visited :: "bfs_state \<Rightarrow> nat set" where
  "visited s = {v. v < NODE_COUNT \<and> trav s ! v}"

definition pos_edges :: "graph \<Rightarrow> (nat \<times> nat) set" where
  "pos_edges g = {(u, v). u < NODE_COUNT \<and> v < NODE_COUNT \<and> 0 < res g u v}"

definition reachable :: "graph \<Rightarrow> nat set" where
  "reachable g = {v. (SOURCE_NODE_ID, v) \<in> (pos_edges g)\<^sup>*}"

definition shape :: "bfs_state \<Rightarrow> bool" where
  "shape s \<longleftrightarrow> length (trav s) = NODE_COUNT \<and>
     (case outPath s of None \<Rightarrow> True | Some p \<Rightarrow> length p = NODE_COUNT)"

definition visit :: "graph \<Rightarrow> nat \<Rightarrow> bfs_state \<Rightarrow> nat \<Rightarrow> bfs_state" where
  "visit g node s i =
     (if \<not> trav s ! i \<and> 0 < res g node i
      then s\<lparr>trav := (trav s)[i := True], bfs_q := bfs_q s @ [i],
             outPath := map_option (\<lambda>p. p[i := (p ! i)\<lparr>parent_id := int node\<rparr>]) (outPath s)\<rparr>
      else s)"

lemma bfs_visit_eq:
  "square g \<Longrightarrow> shape s \<Longrightarrow> node < NODE_COUNT \<Longrightarrow> i < NODE_COUNT \<Longrightarrow>
     bfs_visit g node s i = Inr (visit g node s i)"
  by (auto simp: bfs_visit_def visit_def shape_def at_def getResidualCapacity_square
      split: option.splits)

lemma shape_visit: "shape s \<Longrightarrow> shape (visit g node s i)"
  by (auto simp: visit_def shape_def split: option.splits)

lemma for_each_visit_eq:
  "square g \<Longrightarrow> shape s \<Longrightarrow> node < NODE_COUNT \<Longrightarrow> \<forall>i\<in>set is. i < NODE_COUNT \<Longrightarrow>
     for_each (bfs_visit g node) is s = Inr (fold (\<lambda>i s. visit g node s i) is s)"
proof (induction "is" arbitrary: s)
  case Nil
  then show ?case by simp
next
  case (Cons i "is")
  then show ?case by (simp add: bfs_visit_eq shape_visit)
qed

lemma shape_fold_visit: "shape s \<Longrightarrow> shape (fold (\<lambda>i s. visit g node s i) is s)"
  by (induction "is" arbitrary: s) (simp_all add: shape_visit)

lemma visited_visit:
  "shape s \<Longrightarrow> i < NODE_COUNT \<Longrightarrow>
     visited (visit g node s i) = visited s \<union> (if 0 < res g node i then {i} else {})"
  by (auto simp: visit_def visited_def shape_def nth_list_update)

lemma visited_fold_visit:
  "shape s \<Longrightarrow> \<forall>i\<in>set is. i < NODE_COUNT \<Longrightarrow>
     visited (fold (\<lambda>i s. visit g node s i) is s) = visited s \<union> {v \<in> set is. 0 < res g node v}"
proof (induction "is" arbitrary: s)
  case Nil
  then show ?case by simp
next
  case (Cons i "is")
  then show ?case by (auto simp: shape_visit visited_visit split: if_splits)
qed

lemma queue_visit:
  "shape s \<Longrightarrow> i < NODE_COUNT \<Longrightarrow>
     set (bfs_q (visit g node s i)) = set (bfs_q s) \<union> (visited (visit g node s i) - visited s)"
  by (auto simp: visit_def visited_def shape_def nth_list_update)

lemma visited_visit_mono:
  "shape s \<Longrightarrow> i < NODE_COUNT \<Longrightarrow> visited s \<subseteq> visited (visit g node s i)"
  by (simp add: visited_visit)

lemma queue_fold_visit:
  "shape s \<Longrightarrow> \<forall>i\<in>set is. i < NODE_COUNT \<Longrightarrow>
     set (bfs_q (fold (\<lambda>i s. visit g node s i) is s)) =
       set (bfs_q s) \<union> (visited (fold (\<lambda>i s. visit g node s i) is s) - visited s)"
proof (induction "is" arbitrary: s)
  case Nil
  then show ?case by simp
next
  case (Cons i "is")
  have sh: "shape (visit g node s i)" using Cons.prems by (simp add: shape_visit)
  have m1: "visited s \<subseteq> visited (visit g node s i)"
    using Cons.prems by (simp add: visited_visit_mono)
  have m2: "visited (visit g node s i) \<subseteq> visited (fold (\<lambda>i s. visit g node s i) is (visit g node s i))"
    using sh Cons.prems by (simp add: visited_fold_visit)
  have "set (bfs_q (fold (\<lambda>i s. visit g node s i) is (visit g node s i))) =
      set (bfs_q (visit g node s i)) \<union>
      (visited (fold (\<lambda>i s. visit g node s i) is (visit g node s i)) - visited (visit g node s i))"
    using Cons.IH [OF sh] Cons.prems by simp
  also have "set (bfs_q (visit g node s i)) = set (bfs_q s) \<union> (visited (visit g node s i) - visited s)"
    using Cons.prems by (simp add: queue_visit)
  finally show ?case using m1 m2 by auto
qed

lemma outPath_visit:
  "shape s \<Longrightarrow> i < NODE_COUNT \<Longrightarrow> outPath s = Some p \<Longrightarrow>
     \<exists>p'. outPath (visit g node s i) = Some p' \<and>
       (\<forall>v. p' ! v = (if v \<in> visited (visit g node s i) - visited s
                       then (p ! v)\<lparr>parent_id := int node\<rparr> else p ! v))"
  by (auto simp: visit_def visited_def shape_def nth_list_update)

lemma outPath_fold_visit:
  "shape s \<Longrightarrow> \<forall>i\<in>set is. i < NODE_COUNT \<Longrightarrow> outPath s = Some p \<Longrightarrow>
     \<exists>p'. outPath (fold (\<lambda>i s. visit g node s i) is s) = Some p' \<and>
       (\<forall>v. p' ! v = (if v \<in> visited (fold (\<lambda>i s. visit g node s i) is s) - visited s
                       then (p ! v)\<lparr>parent_id := int node\<rparr> else p ! v))"
proof (induction "is" arbitrary: s p)
  case Nil
  then show ?case by simp
next
  case (Cons i "is")
  let ?s1 = "visit g node s i"
  let ?s2 = "fold (\<lambda>i s. visit g node s i) is ?s1"
  have sh: "shape ?s1" using Cons.prems by (simp add: shape_visit)
  obtain p1 where p1: "outPath ?s1 = Some p1"
    and e1: "\<forall>v. p1 ! v = (if v \<in> visited ?s1 - visited s
                       then (p ! v)\<lparr>parent_id := int node\<rparr> else p ! v)"
    using outPath_visit [of s i p g node] Cons.prems by auto
  obtain p2 where p2: "outPath ?s2 = Some p2"
    and e2: "\<forall>v. p2 ! v = (if v \<in> visited ?s2 - visited ?s1
                       then (p1 ! v)\<lparr>parent_id := int node\<rparr> else p1 ! v)"
    using Cons.IH [OF sh _ p1] Cons.prems by auto
  have m1: "visited s \<subseteq> visited ?s1"
    using Cons.prems by (simp add: visited_visit_mono)
  have m2: "visited ?s1 \<subseteq> visited ?s2"
    using sh Cons.prems by (simp add: visited_fold_visit)
  have "\<forall>v. p2 ! v = (if v \<in> visited ?s2 - visited s
                       then (p ! v)\<lparr>parent_id := int node\<rparr> else p ! v)"
    using e1 e2 m1 m2 by auto
  with p2 show ?case by simp
qed

lemma outPath_fold_visit_None:
  "outPath s = None \<Longrightarrow> outPath (fold (\<lambda>i s. visit g node s i) is s) = None"
  by (induction "is" arbitrary: s) (simp_all add: visit_def)

text \<open>
  A parent chain: the nodes from some node back to the source, each the parent of the
  one before it, along edges of positive residual capacity.
\<close>

fun chain_ok :: "graph \<Rightarrow> residualGraphNode list \<Rightarrow> nat list \<Rightarrow> bool" where
  "chain_ok g p [] = False"
| "chain_ok g p [v] = (v = SOURCE_NODE_ID)"
| "chain_ok g p (c # u # ns) =
     (c \<noteq> SOURCE_NODE_ID \<and> parent_id (p ! c) = int u \<and> 0 < res g u c \<and> chain_ok g p (u # ns))"

lemma chain_ok_cong:
  "\<forall>v\<in>set ns. parent_id (p' ! v) = parent_id (p ! v) \<Longrightarrow> chain_ok g p' ns = chain_ok g p ns"
  by (induction g p ns rule: chain_ok.induct) auto

definition has_chain :: "graph \<Rightarrow> residualGraphNode list \<Rightarrow> nat set \<Rightarrow> nat \<Rightarrow> bool" where
  "has_chain g p V v \<longleftrightarrow> (\<exists>ns. chain_ok g p (v # ns) \<and> distinct (v # ns) \<and> set (v # ns) \<subseteq> V)"

definition bfs_inv :: "graph \<Rightarrow> bfs_state \<Rightarrow> bool" where
  "bfs_inv g s \<longleftrightarrow>
     shape s \<and> SOURCE_NODE_ID \<in> visited s \<and> set (bfs_q s) \<subseteq> visited s \<and>
     visited s \<subseteq> reachable g \<and>
     (\<forall>u\<in>visited s - set (bfs_q s). \<forall>v. (u, v) \<in> pos_edges g \<longrightarrow> v \<in> visited s) \<and>
     (\<forall>p. outPath s = Some p \<longrightarrow> (\<forall>v\<in>visited s. has_chain g p (visited s) v))"

lemma visited_less: "v \<in> visited s \<Longrightarrow> v < NODE_COUNT"
  by (simp add: visited_def)

lemma bfs_inv_step:
  assumes inv: "bfs_inv g s" and q: "bfs_q s = node # rest"
  defines "s' \<equiv> fold (\<lambda>i s. visit g node s i) [0..<NODE_COUNT] (s\<lparr>bfs_q := rest\<rparr>)"
  shows "bfs_inv g s'"
proof -
  let ?s0 = "s\<lparr>bfs_q := rest\<rparr>"
  have sh0: "shape ?s0" using inv by (simp add: bfs_inv_def shape_def)
  have v0: "visited ?s0 = visited s" by (simp add: visited_def)
  have node: "node \<in> visited s" using inv q by (auto simp: bfs_inv_def)
  then have node6: "node < NODE_COUNT" by (rule visited_less)
  have rng: "\<forall>i\<in>set [0..<NODE_COUNT]. i < NODE_COUNT" by simp
  have V': "visited s' = visited s \<union> {v. v < NODE_COUNT \<and> 0 < res g node v}"
    unfolding s'_def using visited_fold_visit [OF sh0 rng, of g node] v0 by auto
  have Q': "set (bfs_q s') = set rest \<union> (visited s' - visited s)"
    unfolding s'_def using queue_fold_visit [OF sh0 rng, of g node] v0 by simp
  have sh': "shape s'" unfolding s'_def using sh0 by (rule shape_fold_visit)
  have src: "SOURCE_NODE_ID \<in> visited s'" using inv V' by (auto simp: bfs_inv_def)
  have qsub: "set (bfs_q s') \<subseteq> visited s'"
    using inv q Q' V' by (auto simp: bfs_inv_def)
  have reach: "visited s' \<subseteq> reachable g"
  proof
    fix v assume "v \<in> visited s'"
    then consider "v \<in> visited s" | "v < NODE_COUNT" "0 < res g node v" using V' by auto
    then show "v \<in> reachable g"
    proof cases
      case 1
      then show ?thesis using inv by (auto simp: bfs_inv_def)
    next
      case 2
      have "node \<in> reachable g" using inv node by (auto simp: bfs_inv_def)
      moreover have "(node, v) \<in> pos_edges g" using 2 node6 by (simp add: pos_edges_def)
      ultimately show ?thesis by (auto simp: reachable_def intro: rtrancl_into_rtrancl)
    qed
  qed
  have closed: "\<forall>u\<in>visited s' - set (bfs_q s'). \<forall>v. (u, v) \<in> pos_edges g \<longrightarrow> v \<in> visited s'"
  proof (intro ballI allI impI)
    fix u v assume u: "u \<in> visited s' - set (bfs_q s')" and e: "(u, v) \<in> pos_edges g"
    from u Q' have uV: "u \<in> visited s" and ur: "u \<notin> set rest" by auto
    show "v \<in> visited s'"
    proof (cases "u = node")
      case True
      then show ?thesis using e V' by (auto simp: pos_edges_def)
    next
      case False
      then have "u \<in> visited s - set (bfs_q s)" using uV ur q by simp
      then have "v \<in> visited s" using inv e by (auto simp: bfs_inv_def)
      then show ?thesis using V' by simp
    qed
  qed
  have chains: "\<forall>p'. outPath s' = Some p' \<longrightarrow> (\<forall>v\<in>visited s'. has_chain g p' (visited s') v)"
  proof (intro allI impI ballI)
    fix p' v assume p': "outPath s' = Some p'" and v: "v \<in> visited s'"
    have "outPath ?s0 \<noteq> None"
      using p' outPath_fold_visit_None [of ?s0 g node "[0..<NODE_COUNT]"] by (auto simp: s'_def)
    then obtain p where p: "outPath s = Some p" by auto
    then have p0: "outPath ?s0 = Some p" by simp
    have pe: "\<forall>x. p' ! x = (if x \<in> visited s' - visited s
                       then (p ! x)\<lparr>parent_id := int node\<rparr> else p ! x)"
      using outPath_fold_visit [OF sh0 rng p0, of g node] p' v0 by (auto simp: s'_def)
    have old: "has_chain g p' (visited s') x" if x: "x \<in> visited s" for x
    proof -
      from inv p x obtain ns where ns: "chain_ok g p (x # ns)" "distinct (x # ns)"
        "set (x # ns) \<subseteq> visited s"
        by (auto simp: bfs_inv_def has_chain_def)
      have "\<forall>y\<in>set (x # ns). parent_id (p' ! y) = parent_id (p ! y)"
        using ns(3) pe by auto
      then have "chain_ok g p' (x # ns)" using ns(1) by (simp only: chain_ok_cong)
      moreover have "set (x # ns) \<subseteq> visited s'" using ns(3) V' by auto
      ultimately show ?thesis using ns(2) unfolding has_chain_def by blast
    qed
    show "has_chain g p' (visited s') v"
    proof (cases "v \<in> visited s")
      case True
      then show ?thesis by (rule old)
    next
      case False
      with v V' have vr: "v < NODE_COUNT" "0 < res g node v" by auto
      from old [OF node] obtain ns where ns: "chain_ok g p' (node # ns)" "distinct (node # ns)"
        "set (node # ns) \<subseteq> visited s'"
        by (auto simp: has_chain_def)
      from inv p node obtain ms where ms: "chain_ok g p (node # ms)" "distinct (node # ms)"
        "set (node # ms) \<subseteq> visited s"
        by (auto simp: bfs_inv_def has_chain_def)
      have "\<forall>y\<in>set (node # ms). parent_id (p' ! y) = parent_id (p ! y)"
        using ms(3) pe by auto
      then have c1: "chain_ok g p' (node # ms)" using ms(1) by (simp only: chain_ok_cong)
      have "SOURCE_NODE_ID \<in> visited s" using inv by (simp add: bfs_inv_def)
      with False have vs: "v \<noteq> SOURCE_NODE_ID" by (intro notI) simp
      have par: "parent_id (p' ! v) = int node" using pe v False by simp
      have "chain_ok g p' (v # node # ms)" using c1 vs par vr by simp
      moreover have "distinct (v # node # ms)" using ms(2,3) False by auto
      moreover have "set (v # node # ms) \<subseteq> visited s'" using ms(3) v V' by auto
      ultimately show ?thesis unfolding has_chain_def by blast
    qed
  qed
  show ?thesis
    unfolding bfs_inv_def using sh' src qsub reach closed chains by blast
qed

lemma bfs_loop_inv:
  "square g \<Longrightarrow> bfs_inv g s \<Longrightarrow>
     \<exists>s'. bfs_loop g s = Inr s' \<and> bfs_inv g s' \<and> bfs_q s' = [] \<and>
       (outPath s' = None \<longleftrightarrow> outPath s = None)"
proof (induction g s rule: bfs_loop.induct)
  case (1 g s)
  show ?case
  proof (cases "bfs_q s")
    case Nil
    then show ?thesis using "1.prems" by (simp add: bfs_loop.simps)
  next
    case (Cons node rest)
    let ?s0 = "s\<lparr>bfs_q := rest\<rparr>"
    let ?s1 = "fold (\<lambda>i s. visit g node s i) [0..<NODE_COUNT] ?s0"
    have sh0: "shape ?s0" using "1.prems" by (simp add: bfs_inv_def shape_def)
    have node: "node < NODE_COUNT"
      using "1.prems" Cons by (auto simp: bfs_inv_def intro: visited_less)
    have fe: "for_each (bfs_visit g node) [0..<NODE_COUNT] ?s0 = Inr ?s1"
      using "1.prems"(1) sh0 node by (intro for_each_visit_eq) auto
    have inv1: "bfs_inv g ?s1" using "1.prems"(2) Cons by (rule bfs_inv_step)
    obtain s' where s': "bfs_loop g ?s1 = Inr s'" "bfs_inv g s'" "bfs_q s' = []"
      "outPath s' = None \<longleftrightarrow> outPath ?s1 = None"
      using "1.IH" [OF Cons fe "1.prems"(1) inv1] by (elim exE conjE)
    have "outPath ?s1 = None \<longleftrightarrow> outPath s = None"
    proof (cases "outPath s")
      case None
      then show ?thesis by (simp add: outPath_fold_visit_None)
    next
      case (Some p)
      then have "outPath ?s0 = Some p" by simp
      from outPath_fold_visit [OF sh0 _ this, of "[0..<NODE_COUNT]" g node] Some
      show ?thesis by auto
    qed
    moreover have "bfs_loop g s = bfs_loop g ?s1"
      using Cons fe by (subst bfs_loop.simps) simp
    ultimately show ?thesis using s' by simp
  qed
qed

lemma bfs_inv_final:
  assumes "bfs_inv g s" "bfs_q s = []"
  shows "visited s = reachable g"
proof
  show "visited s \<subseteq> reachable g" using assms by (simp add: bfs_inv_def)
next
  have "v \<in> visited s" if "(SOURCE_NODE_ID, v) \<in> (pos_edges g)\<^sup>*" for v
    using that
  proof (induction rule: rtrancl_induct)
    case base
    then show ?case using assms by (simp add: bfs_inv_def)
  next
    case (step y z)
    then show ?case using assms by (auto simp: bfs_inv_def)
  qed
  then show "reachable g \<subseteq> visited s" by (auto simp: reachable_def)
qed

lemma for_each_partition:
  "\<forall>i\<in>set is. i < length tr \<Longrightarrow>
     for_each (bfs_partition tr) is (sp, tp) =
       Inr (sp @ filter (\<lambda>i. tr ! i) is, tp @ filter (\<lambda>i. \<not> tr ! i) is)"
  by (induction "is" arbitrary: sp tp) (simp_all add: bfs_partition_def at_def)

definition bfs_start :: "residualGraphNode list option \<Rightarrow> bfs_state" where
  "bfs_start oP = \<lparr>trav = (replicate NODE_COUNT False)[SOURCE_NODE_ID := True],
     bfs_q = [SOURCE_NODE_ID], outPath = oP\<rparr>"

definition buffer_ok :: "residualGraphNode list option \<Rightarrow> bool" where
  "buffer_ok oP = (case oP of None \<Rightarrow> True | Some p \<Rightarrow> length p = NODE_COUNT)"

lemma visited_bfs_start: "visited (bfs_start oP) = {SOURCE_NODE_ID}"
  by (auto simp: visited_def bfs_start_def nth_list_update)

lemma bfs_inv_start: "buffer_ok oP \<Longrightarrow> bfs_inv g (bfs_start oP)"
  unfolding bfs_inv_def visited_bfs_start
  by (auto simp: bfs_start_def shape_def buffer_ok_def reachable_def has_chain_def
      intro!: exI [of _ "[]"] split: option.splits)

lemma bfs_eq:
  "bfs g sP tP oP =
     ebind (bfs_loop g (bfs_start oP)) (\<lambda>s.
           ebind (case (sP, tP) of
                    (Some sp, Some tp) \<Rightarrow>
                      ebind (for_each (bfs_partition (trav s)) [0..<NODE_COUNT] (sp, tp))
                        (\<lambda>(sp', tp'). Inr (Some sp', Some tp'))
                  | _ \<Rightarrow> Inr (sP, tP))
             (\<lambda>(sP', tP').
                ebind (at (trav s) TARGET_NODE_ID) (\<lambda>r.
                  Inr \<lparr>reached = r, sPath = sP', tPath = tP', parents = outPath s\<rparr>)))"
  by (simp add: bfs_def bfs_start_def Let_def)

text \<open>The two buffers of the partition, as \<open>bfs\<close> leaves them.\<close>

definition partition_of :: "graph \<Rightarrow> nat list option \<Rightarrow> nat list option \<Rightarrow>
    nat list option \<times> nat list option" where
  "partition_of g sP tP =
     (case (sP, tP) of
        (Some sp, Some tp) \<Rightarrow>
          (Some (sp @ filter (\<lambda>v. v \<in> reachable g) [0..<NODE_COUNT]),
           Some (tp @ filter (\<lambda>v. v \<notin> reachable g) [0..<NODE_COUNT]))
      | _ \<Rightarrow> (sP, tP))"

lemma bfs_correct:
  assumes sq: "square g" and buf: "buffer_ok oP"
  shows "\<exists>b. bfs g sP tP oP = Inr b \<and>
     reached b = (TARGET_NODE_ID \<in> reachable g) \<and>
     (sPath b, tPath b) = partition_of g sP tP \<and>
     (case oP of
        None \<Rightarrow> parents b = None
      | Some p \<Rightarrow> \<exists>p'. parents b = Some p' \<and> length p' = NODE_COUNT \<and>
          (\<forall>v\<in>reachable g. has_chain g p' (reachable g) v))"
proof -
  obtain s where s: "bfs_loop g (bfs_start oP) = Inr s" "bfs_inv g s" "bfs_q s = []"
    "outPath s = None \<longleftrightarrow> outPath (bfs_start oP) = None"
    using bfs_loop_inv [OF sq bfs_inv_start [OF buf]] by (elim exE conjE)
  have V: "visited s = reachable g" using s(2,3) by (rule bfs_inv_final)
  have len: "length (trav s) = NODE_COUNT" using s(2) by (simp add: bfs_inv_def shape_def)
  have tr: "\<And>v. v < NODE_COUNT \<Longrightarrow> trav s ! v \<longleftrightarrow> v \<in> reachable g"
    using V by (auto simp: visited_def)
  have f1: "filter (\<lambda>i. trav s ! i) [0..<NODE_COUNT] = filter (\<lambda>v. v \<in> reachable g) [0..<NODE_COUNT]"
    by (rule filter_cong) (simp_all add: tr)
  have f2: "filter (\<lambda>i. \<not> trav s ! i) [0..<NODE_COUNT] = filter (\<lambda>v. v \<notin> reachable g) [0..<NODE_COUNT]"
    by (rule filter_cong) (simp_all add: tr)
  have part: "\<And>sp tp. for_each (bfs_partition (trav s)) [0..<NODE_COUNT] (sp, tp) =
      Inr (sp @ filter (\<lambda>v. v \<in> reachable g) [0..<NODE_COUNT],
           tp @ filter (\<lambda>v. v \<notin> reachable g) [0..<NODE_COUNT])"
  proof -
    fix sp tp
    have "\<forall>i\<in>set [0..<NODE_COUNT]. i < length (trav s)" using len by simp
    from for_each_partition [OF this, of sp tp] show "for_each (bfs_partition (trav s)) [0..<NODE_COUNT] (sp, tp) =
      Inr (sp @ filter (\<lambda>v. v \<in> reachable g) [0..<NODE_COUNT],
           tp @ filter (\<lambda>v. v \<notin> reachable g) [0..<NODE_COUNT])"
      by (simp only: f1 f2)
  qed
  let ?b = "\<lparr>reached = trav s ! TARGET_NODE_ID, sPath = fst (partition_of g sP tP),
    tPath = snd (partition_of g sP tP), parents = outPath s\<rparr>"
  have b: "bfs g sP tP oP = Inr ?b"
    unfolding bfs_eq s(1)
    by (cases sP; cases tP) (simp_all add: part partition_of_def at_def len)
  have r: "reached ?b = (TARGET_NODE_ID \<in> reachable g)" using tr [of TARGET_NODE_ID] by simp
  have p: "case oP of
        None \<Rightarrow> parents ?b = None
      | Some p \<Rightarrow> \<exists>p'. parents ?b = Some p' \<and> length p' = NODE_COUNT \<and>
          (\<forall>v\<in>reachable g. has_chain g p' (reachable g) v)"
  proof (cases oP)
    case None
    then show ?thesis using s(4) by (simp add: bfs_start_def)
  next
    case (Some p)
    then obtain p' where p': "outPath s = Some p'" using s(4) by (auto simp: bfs_start_def)
    then have "length p' = NODE_COUNT" using s(2) by (simp add: bfs_inv_def shape_def)
    moreover have "\<forall>v\<in>reachable g. has_chain g p' (reachable g) v"
      using s(2) p' V by (simp add: bfs_inv_def)
    ultimately show ?thesis using Some p' by simp
  qed
  show ?thesis using b r p by (intro exI [of _ ?b]) simp
qed

section \<open>The walks along a parent chain\<close>

fun pchain :: "residualGraphNode list \<Rightarrow> nat list \<Rightarrow> bool" where
  "pchain p [] = False"
| "pchain p [v] = (v = SOURCE_NODE_ID)"
| "pchain p (c # u # ns) =
     (c \<noteq> SOURCE_NODE_ID \<and> parent_id (p ! c) = int u \<and> pchain p (u # ns))"

lemma chain_ok_pchain: "chain_ok g p ns \<Longrightarrow> pchain p ns"
  by (induction g p ns rule: chain_ok.induct) auto

lemma pchain_cong:
  "\<forall>v\<in>set ns. parent_id (p' ! v) = parent_id (p ! v) \<Longrightarrow> pchain p' ns = pchain p ns"
  by (induction p ns rule: pchain.induct) auto

fun chain_min :: "graph \<Rightarrow> nat list \<Rightarrow> int \<Rightarrow> int" where
  "chain_min g (c # u # ns) m = chain_min g (u # ns) (if m > res g u c then res g u c else m)"
| "chain_min g [v] m = m"
| "chain_min g [] m = m"

definition push :: "graph \<Rightarrow> nat \<Rightarrow> nat \<Rightarrow> int \<Rightarrow> graph" where
  "push g u c d =
     (let g1 = set_res g u c (int32 (res g u c - d))
      in set_res g1 c u (int32 (res g1 c u + d)))"

fun chain_aug :: "graph \<Rightarrow> nat list \<Rightarrow> int \<Rightarrow> graph" where
  "chain_aug g (c # u # ns) d = chain_aug (push g u c d) (u # ns) d"
| "chain_aug g [v] d = g"
| "chain_aug g [] d = g"

fun chain_reset :: "residualGraphNode list \<Rightarrow> nat list \<Rightarrow> residualGraphNode list" where
  "chain_reset p (c # u # ns) = chain_reset (p[c := (p ! c)\<lparr>parent_id := INVALID_PARENT\<rparr>]) (u # ns)"
| "chain_reset p [v] = p"
| "chain_reset p [] = p"

lemma square_push: "square g \<Longrightarrow> square (push g u c d)"
  by (simp add: push_def Let_def square_set_res)

lemma min_flow_walk_chain:
  "square g \<Longrightarrow> length p = NODE_COUNT \<Longrightarrow> \<forall>v\<in>set (c # ns). v < NODE_COUNT \<Longrightarrow>
   pchain p (c # ns) \<Longrightarrow>
     min_flow_walk g p (int c) m = Some (Inr (chain_min g (c # ns) m))"
proof (induction ns arbitrary: c m)
  case Nil
  then show ?case by (subst min_flow_walk.simps) simp
next
  case (Cons u ns)
  have c: "c \<noteq> 0" "parent_id (p ! c) = int u" "pchain p (u # ns)"
    using Cons.prems(4) by simp_all
  have r: "c < NODE_COUNT" "u < NODE_COUNT" using Cons.prems(3) by simp_all
  have "min_flow_walk g p (int c) m =
      min_flow_walk g p (int u) (if m > res g u c then res g u c else m)"
    using c r Cons.prems(1,2)
    by (subst min_flow_walk.simps) (simp add: idx_int getResidualCapacity_square)
  also have "\<dots> = Some (Inr (chain_min g (u # ns) (if m > res g u c then res g u c else m)))"
    using Cons.prems c by (intro Cons.IH) simp_all
  finally show ?case by simp
qed

lemma augment_walk_chain:
  "square g \<Longrightarrow> length p = NODE_COUNT \<Longrightarrow> \<forall>v\<in>set (c # ns). v < NODE_COUNT \<Longrightarrow>
   distinct (c # ns) \<Longrightarrow> pchain p (c # ns) \<Longrightarrow>
     augment_walk g p (int c) d = Some (Inr (chain_aug g (c # ns) d, chain_reset p (c # ns)))"
proof (induction ns arbitrary: c g p)
  case Nil
  then show ?case by (subst augment_walk.simps) simp
next
  case (Cons u ns)
  let ?p' = "p[c := (p ! c)\<lparr>parent_id := INVALID_PARENT\<rparr>]"
  let ?g1 = "set_res g u c (int32 (res g u c - d))"
  have c: "c \<noteq> 0" "parent_id (p ! c) = int u" "pchain p (u # ns)"
    using Cons.prems(5) by simp_all
  have r: "c < NODE_COUNT" "u < NODE_COUNT" using Cons.prems(3) by simp_all
  have sq1: "square ?g1" using Cons.prems(1) by (rule square_set_res)
  have "c \<noteq> v" if "v \<in> set (u # ns)" for v using that Cons.prems(4) by auto
  then have "\<forall>v\<in>set (u # ns). parent_id (?p' ! v) = parent_id (p ! v)"
    by (simp add: nth_list_update_neq)
  then have pc: "pchain ?p' (u # ns)" using c(3) by (simp only: pchain_cong)
  have "augment_walk g p (int c) d = augment_walk (push g u c d) ?p' (int u) d"
    using c r Cons.prems(1,2) sq1
    by (subst augment_walk.simps)
       (simp add: idx_int getResidualCapacity_square setResidualCapacity_square push_def Let_def)
  also have "\<dots> = Some (Inr (chain_aug (push g u c d) (u # ns) d, chain_reset ?p' (u # ns)))"
    using Cons.prems pc by (intro Cons.IH) (simp_all add: square_push)
  finally show ?case by simp
qed

text \<open>
  \<open>pflow ns a b\<close> is 1 when \<open>(a, b)\<close> is an edge of the chain (\<open>a\<close> the parent of
  \<open>b\<close>), \<open>- 1\<close> when \<open>(b, a)\<close> is one, and 0 otherwise: a unit of flow along the path.
\<close>

definition unit_flow :: "nat \<Rightarrow> nat \<Rightarrow> nat \<Rightarrow> nat \<Rightarrow> int" where
  "unit_flow u c a b = (if a = u \<and> b = c then 1 else if a = c \<and> b = u then - 1 else 0)"

fun pflow :: "nat list \<Rightarrow> nat \<Rightarrow> nat \<Rightarrow> int" where
  "pflow (c # u # ns) a b = unit_flow u c a b + pflow (u # ns) a b"
| "pflow [v] a b = 0"
| "pflow [] a b = 0"

lemma unit_flow_notin: "a \<noteq> c \<and> a \<noteq> u \<or> b \<noteq> c \<and> b \<noteq> u \<Longrightarrow> unit_flow u c a b = 0"
  by (auto simp: unit_flow_def)

lemma pflow_notin: "a \<notin> set ns \<or> b \<notin> set ns \<Longrightarrow> pflow ns a b = 0"
proof (induction ns a b rule: pflow.induct)
  case (1 c u ns a b)
  then have "unit_flow u c a b = 0" by (intro unit_flow_notin) auto
  moreover have "pflow (u # ns) a b = 0" using 1 by auto
  ultimately show ?case by simp
qed simp_all


lemma unit_flow_range: "unit_flow u c a b \<in> {- 1, 0, 1}"
  by (simp add: unit_flow_def)

lemma unit_flow_skew: "u \<noteq> c \<Longrightarrow> unit_flow u c b a = - unit_flow u c a b"
  by (simp add: unit_flow_def)

lemma pflow_range: "distinct ns \<Longrightarrow> pflow ns a b \<in> {- 1, 0, 1}"
proof (induction ns a b rule: pflow.induct)
  case (1 c u ns a b)
  show ?case
  proof (cases "a = c \<or> b = c")
    case True
    then have "pflow (u # ns) a b = 0" using "1.prems" by (intro pflow_notin) auto
    then show ?thesis using unit_flow_range [of u c a b] by simp
  next
    case False
    then have "unit_flow u c a b = 0" by (auto simp: unit_flow_def)
    then show ?thesis using 1 by simp
  qed
qed simp_all

lemma pflow_skew: "distinct ns \<Longrightarrow> pflow ns b a = - pflow ns a b"
proof (induction ns a b rule: pflow.induct)
  case (1 c u ns a b)
  have "unit_flow u c b a = - unit_flow u c a b" using "1.prems" by (intro unit_flow_skew) auto
  moreover have "pflow (u # ns) b a = - pflow (u # ns) a b" using 1 by simp
  ultimately show ?case by simp
qed simp_all

lemma res_push:
  "square g \<Longrightarrow> u < NODE_COUNT \<Longrightarrow> c < NODE_COUNT \<Longrightarrow> u \<noteq> c \<Longrightarrow>
     res (push g u c d) a b =
       (if a = u \<and> b = c then int32 (res g u c - d)
        else if a = c \<and> b = u then int32 (res g c u + d)
        else res g a b)"
  by (simp add: push_def Let_def res_set_res square_set_res)

lemma orig_push: "orig (push g u c d) a b = orig g a b"
  by (simp add: push_def Let_def orig_set_res)

lemma orig_chain_aug: "orig (chain_aug g ns d) a b = orig g a b"
  by (induction g ns d rule: chain_aug.induct) (simp_all add: orig_push)

lemma square_chain_aug: "square g \<Longrightarrow> square (chain_aug g ns d)"
  by (induction g ns d rule: chain_aug.induct) (simp_all add: square_push)

lemma res_chain_aug:
  "square g \<Longrightarrow> distinct ns \<Longrightarrow> \<forall>v\<in>set ns. v < NODE_COUNT \<Longrightarrow>
     res (chain_aug g ns d) a b =
       (if pflow ns a b = 1 then int32 (res g a b - d)
        else if pflow ns a b = - 1 then int32 (res g a b + d)
        else res g a b)"
proof (induction g ns d rule: chain_aug.induct)
  case (1 g c u ns d)
  have IH: "res (chain_aug (push g u c d) (u # ns) d) a b =
       (if pflow (u # ns) a b = 1 then int32 (res (push g u c d) a b - d)
        else if pflow (u # ns) a b = - 1 then int32 (res (push g u c d) a b + d)
        else res (push g u c d) a b)"
    using "1.prems" by (intro "1.IH") (simp_all add: square_push)
  have rp: "res (push g u c d) a b =
       (if a = u \<and> b = c then int32 (res g u c - d)
        else if a = c \<and> b = u then int32 (res g c u + d)
        else res g a b)"
    using "1.prems" by (intro res_push) auto
  have uc: "u \<noteq> c" using "1.prems" by auto
  consider "a = u \<and> b = c" | "a = c \<and> b = u" | "\<not> (a = u \<and> b = c) \<and> \<not> (a = c \<and> b = u)"
    by blast
  then show ?case
  proof cases
    case 1
    then have "pflow (u # ns) a b = 0" using "1.prems" by (intro pflow_notin) auto
    moreover have "unit_flow u c a b = 1" using 1 by (simp add: unit_flow_def)
    ultimately show ?thesis using IH rp 1 uc by simp
  next
    case 2
    then have "pflow (u # ns) a b = 0" using "1.prems" by (intro pflow_notin) auto
    moreover have "unit_flow u c a b = - 1" using 2 uc by (simp add: unit_flow_def)
    ultimately show ?thesis using IH rp 2 uc by simp
  next
    case 3
    then have "unit_flow u c a b = 0" by (auto simp: unit_flow_def)
    then show ?thesis using IH rp 3 by auto
  qed
qed simp_all

lemma sum_unit_flow:
  "u < NODE_COUNT \<Longrightarrow> c < NODE_COUNT \<Longrightarrow> u \<noteq> c \<Longrightarrow>
     (\<Sum>b<NODE_COUNT. unit_flow u c a b) = (if a = u then 1 else 0) - (if a = c then 1 else 0)"
proof -
  assume r: "u < NODE_COUNT" "c < NODE_COUNT" "u \<noteq> c"
  have 1: "(\<Sum>b<NODE_COUNT. unit_flow u c u b) = (\<Sum>b<NODE_COUNT. if b = c then 1 else 0)"
    using r by (intro sum.cong) (auto simp: unit_flow_def)
  have 2: "(\<Sum>b<NODE_COUNT. unit_flow u c c b) = (\<Sum>b<NODE_COUNT. if b = u then - 1 else 0)"
    using r by (intro sum.cong) (auto simp: unit_flow_def)
  have 3: "(\<Sum>b<NODE_COUNT. unit_flow u c a b) = (\<Sum>b<NODE_COUNT. 0)" if "a \<noteq> u" "a \<noteq> c"
    using that by (intro sum.cong) (auto simp: unit_flow_def)
  show ?thesis
  proof (cases "a = u")
    case True
    then show ?thesis using 1 r by simp
  next
    case False
    show ?thesis
    proof (cases "a = c")
      case True
      then show ?thesis using 2 r by simp
    next
      case c: False
      show ?thesis using 3 [OF False c] False c by simp
    qed
  qed
qed

lemma sum_pflow:
  "distinct ns \<Longrightarrow> \<forall>v\<in>set ns. v < NODE_COUNT \<Longrightarrow> ns \<noteq> [] \<Longrightarrow>
     (\<Sum>b<NODE_COUNT. pflow ns a b) =
       (if a = last ns then 1 else 0) - (if a = hd ns then 1 else 0)"
proof (induction ns a "0::nat" rule: pflow.induct)
  case (1 c u ns a)
  have "(\<Sum>b<NODE_COUNT. pflow (c # u # ns) a b) =
      (\<Sum>b<NODE_COUNT. unit_flow u c a b) + (\<Sum>b<NODE_COUNT. pflow (u # ns) a b)"
    by (simp add: sum.distrib)
  moreover have "(\<Sum>b<NODE_COUNT. unit_flow u c a b) = (if a = u then 1 else 0) - (if a = c then 1 else 0)"
    using "1.prems" by (intro sum_unit_flow) auto
  moreover have "(\<Sum>b<NODE_COUNT. pflow (u # ns) a b) =
      (if a = last (u # ns) then 1 else 0) - (if a = u then 1 else 0)"
    using "1.prems" "1.hyps" by simp
  ultimately show ?case by simp
qed simp_all

section \<open>One round of the loop\<close>

lemma int32_id: "INT_MIN \<le> x \<Longrightarrow> x \<le> INT_MAX \<Longrightarrow> int32 x = x"
  by (simp add: int32_def)

lemma int32_range: "INT_MIN \<le> int32 x \<and> int32 x \<le> INT_MAX"
proof -
  have "0 \<le> (x + 2147483648) mod 4294967296" "(x + 2147483648) mod 4294967296 < 4294967296"
    by simp_all
  then show ?thesis unfolding int32_def by linarith
qed

lemma chain_min_le: "chain_min g ns m \<le> m"
proof (induction g ns m rule: chain_min.induct)
  case (1 g c u ns m)
  then show ?case by (auto split: if_splits)
qed simp_all

lemma pflow_one_cases:
  assumes "distinct (c # u # ns)" "pflow (c # u # ns) a b = 1"
  shows "a = u \<and> b = c \<or> pflow (u # ns) a b = 1"
proof (cases "a = u \<and> b = c")
  case False
  have r: "pflow (u # ns) a b \<in> {- 1, 0, 1}" using assms(1) by (intro pflow_range) simp
  have "unit_flow u c a b \<in> {- 1, 0}" using False by (simp add: unit_flow_def)
  then show ?thesis using assms(2) r by auto
qed simp

lemma chain_min_le_edge:
  "distinct ns \<Longrightarrow> pflow ns a b = 1 \<Longrightarrow> chain_min g ns m \<le> res g a b"
proof (induction g ns m rule: chain_min.induct)
  case (1 g c u ns m)
  let ?m = "if m > res g u c then res g u c else m"
  from pflow_one_cases [OF "1.prems"] show ?case
  proof
    assume "a = u \<and> b = c"
    moreover have "chain_min g (u # ns) ?m \<le> ?m" by (rule chain_min_le)
    ultimately show ?thesis by (auto split: if_splits)
  next
    assume "pflow (u # ns) a b = 1"
    then show ?thesis using 1 by simp
  qed
qed simp_all

lemma chain_min_pos: "chain_ok g p ns \<Longrightarrow> 0 < m \<Longrightarrow> 0 < chain_min g ns m"
proof (induction g ns m rule: chain_min.induct)
  case (1 g c u ns m)
  then show ?case by auto
qed simp_all

lemma length_chain_reset: "length (chain_reset p ns) = length p"
  by (induction p ns rule: chain_reset.induct) simp_all

lemma reachable_less: "v \<in> reachable g \<Longrightarrow> v < NODE_COUNT"
proof -
  assume "v \<in> reachable g"
  then have "(0, v) \<in> (pos_edges g)\<^sup>*" by (simp add: reachable_def)
  then show ?thesis by (cases rule: rtranclE) (auto simp: pos_edges_def)
qed

text \<open>
  The augmenting path that \<open>bfs\<close> leaves in the parent buffer \<open>p\<close>: a chain from
  the target back to the source, without repetition, along edges of positive
  residual capacity.
\<close>

definition augmenting :: "graph \<Rightarrow> residualGraphNode list \<Rightarrow> nat list \<Rightarrow> bool" where
  "augmenting g p ns \<longleftrightarrow>
     ns \<noteq> [] \<and> hd ns = TARGET_NODE_ID \<and> chain_ok g p ns \<and> distinct ns \<and>
     (\<forall>v\<in>set ns. v < NODE_COUNT)"

lemma ff_iteration_cases:
  assumes sq: "square g" and len: "length p = NODE_COUNT"
  shows "\<exists>p'. bfs g None None (Some p) =
            Inr \<lparr>reached = (TARGET_NODE_ID \<in> reachable g), sPath = None, tPath = None, parents = Some p'\<rparr> \<and>
          length p' = NODE_COUNT \<and>
          (if TARGET_NODE_ID \<in> reachable g
           then \<exists>ns. augmenting g p' ns \<and>
                  min_flow_walk g p' (int TARGET_NODE_ID) INT_MAX = Some (Inr (chain_min g ns INT_MAX)) \<and>
                  (\<forall>d. augment_walk g p' (int TARGET_NODE_ID) d =
                         Some (Inr (chain_aug g ns d, chain_reset p' ns))) \<and>
                  ff_iteration g p = Some (Inr (Augmented (chain_aug g ns (chain_min g ns INT_MAX))
                     (chain_reset p' ns) (chain_min g ns INT_MAX)))
           else ff_iteration g p = Some (Inr (Done p')))"
proof -
  have buf: "buffer_ok (Some p)" using len by (simp add: buffer_ok_def)
  from bfs_correct [OF sq buf, of None None] obtain b p' where
    b: "bfs g None None (Some p) = Inr b" "reached b = (TARGET_NODE_ID \<in> reachable g)"
      "(sPath b, tPath b) = partition_of g None None"
      "parents b = Some p'" "length p' = NODE_COUNT"
      "\<forall>v\<in>reachable g. has_chain g p' (reachable g) v"
    by auto
  have beq: "b = \<lparr>reached = (TARGET_NODE_ID \<in> reachable g), sPath = None, tPath = None, parents = Some p'\<rparr>"
    using b(2,3,4) by (cases b) (simp add: partition_of_def)
  show ?thesis
  proof (cases "TARGET_NODE_ID \<in> reachable g")
    case False
    then have "ff_iteration g p = Some (Inr (Done p'))"
      using b by (simp add: ff_iteration_def)
    then show ?thesis using False b(1,5) beq by auto
  next
    case True
    then obtain ms where ms: "chain_ok g p' (TARGET_NODE_ID # ms)" "distinct (TARGET_NODE_ID # ms)"
      "set (TARGET_NODE_ID # ms) \<subseteq> reachable g"
      using b(6) unfolding has_chain_def by blast
    let ?ns = "TARGET_NODE_ID # ms"
    have rng: "\<forall>v\<in>set ?ns. v < NODE_COUNT" using ms(3) reachable_less by blast
    have aug: "augmenting g p' ?ns" using ms rng by (simp add: augmenting_def)
    have pc: "pchain p' ?ns" using ms(1) by (rule chain_ok_pchain)
    have w1: "min_flow_walk g p' (int TARGET_NODE_ID) INT_MAX = Some (Inr (chain_min g ?ns INT_MAX))"
      using sq b(5) rng pc by (rule min_flow_walk_chain)
    have w2: "augment_walk g p' (int TARGET_NODE_ID) d = Some (Inr (chain_aug g ?ns d, chain_reset p' ?ns))" for d
      using sq b(5) rng ms(2) pc by (rule augment_walk_chain)
    have "ff_iteration g p = Some (Inr (Augmented (chain_aug g ?ns (chain_min g ?ns INT_MAX))
                     (chain_reset p' ?ns) (chain_min g ?ns INT_MAX)))"
      using b(1,2,4) True w1 w2 by (simp add: ff_iteration_def)
    then show ?thesis using True b(1,5) beq aug w1 w2 by auto
  qed
qed

section \<open>Termination of the loop\<close>

text \<open>
  A graph as \<open>main\<close> builds it: six rows of six edges, each residual capacity a value
  of the type \<open>int\<close> of the source.
\<close>

definition wf_graph :: "graph \<Rightarrow> bool" where
  "wf_graph g \<longleftrightarrow> square g \<and>
     (\<forall>u<NODE_COUNT. \<forall>v<NODE_COUNT. INT_MIN \<le> res g u v \<and> res g u v \<le> INT_MAX)"

text \<open>The residual capacity left on the edges out of the source.\<close>

definition srcsum :: "graph \<Rightarrow> nat" where
  "srcsum g = (\<Sum>b<NODE_COUNT. nat (res g SOURCE_NODE_ID b))"

lemma chain_ok_last: "chain_ok g p ns \<Longrightarrow> last ns = SOURCE_NODE_ID"
  by (induction g p ns rule: chain_ok.induct) auto

lemma pflow_src_nonneg: "pchain p ns \<Longrightarrow> 0 \<le> pflow ns SOURCE_NODE_ID b"
proof (induction ns SOURCE_NODE_ID b rule: pflow.induct)
  case (1 c u ns b)
  then have "0 \<le> unit_flow u c 0 b" by (simp add: unit_flow_def)
  moreover have "0 \<le> pflow (u # ns) 0 b" using 1 by simp
  ultimately show ?case by simp
qed simp_all

lemma augmenting_src_edge:
  assumes "augmenting g p ns"
  shows "\<exists>b<NODE_COUNT. pflow ns SOURCE_NODE_ID b = 1"
proof -
  have ns: "ns \<noteq> []" "hd ns = TARGET_NODE_ID" "chain_ok g p ns" "distinct ns"
    "\<forall>v\<in>set ns. v < NODE_COUNT"
    using assms by (simp_all add: augmenting_def)
  have "(\<Sum>b<NODE_COUNT. pflow ns 0 b) = 1"
    using sum_pflow [OF ns(4,5,1), of 0] chain_ok_last [OF ns(3)] ns(2) by simp
  then have "\<not> (\<forall>b\<in>{..<NODE_COUNT}. pflow ns 0 b = 0)"
    by (metis sum.neutral zero_neq_one)
  then obtain b where b: "b < NODE_COUNT" "pflow ns 0 b \<noteq> 0" by auto
  moreover have "0 \<le> pflow ns 0 b" using ns(3) by (intro pflow_src_nonneg chain_ok_pchain)
  moreover have "pflow ns 0 b \<in> {- 1, 0, 1}" using ns(4) by (rule pflow_range)
  ultimately show ?thesis by auto
qed

lemma augmenting_min:
  assumes "augmenting g p ns"
  shows "0 < chain_min g ns INT_MAX" "chain_min g ns INT_MAX \<le> INT_MAX"
    "pflow ns a b = 1 \<Longrightarrow> chain_min g ns INT_MAX \<le> res g a b"
proof -
  show "0 < chain_min g ns INT_MAX"
    using assms by (intro chain_min_pos [of g p]) (simp_all add: augmenting_def)
  show "chain_min g ns INT_MAX \<le> INT_MAX" by (rule chain_min_le)
  show "pflow ns a b = 1 \<Longrightarrow> chain_min g ns INT_MAX \<le> res g a b"
    using assms by (intro chain_min_le_edge) (simp_all add: augmenting_def)
qed

lemma res_augment:
  assumes "square g" "augmenting g p ns"
  shows "res (chain_aug g ns d) a b =
       (if pflow ns a b = 1 then int32 (res g a b - d)
        else if pflow ns a b = - 1 then int32 (res g a b + d)
        else res g a b)"
  using assms by (intro res_chain_aug) (simp_all add: augmenting_def)

lemma wf_graph_augment:
  assumes "wf_graph g" "augmenting g p ns"
  shows "wf_graph (chain_aug g ns d)"
proof -
  have sq: "square g" using assms(1) by (simp add: wf_graph_def)
  have "INT_MIN \<le> res (chain_aug g ns d) u v \<and> res (chain_aug g ns d) u v \<le> INT_MAX"
    if "u < NODE_COUNT" "v < NODE_COUNT" for u v
    using assms(1) that int32_range [of "res g u v - d"] int32_range [of "res g u v + d"]
    by (simp add: res_augment [OF sq assms(2)] wf_graph_def)
  then show ?thesis using sq by (simp add: wf_graph_def square_chain_aug)
qed

lemma srcsum_augment:
  assumes wf: "wf_graph g" and aug: "augmenting g p ns"
  defines "d \<equiv> chain_min g ns INT_MAX"
  shows "srcsum (chain_aug g ns d) < srcsum g"
proof -
  have sq: "square g" using wf by (simp add: wf_graph_def)
  have d: "0 < d" "d \<le> INT_MAX" unfolding d_def using augmenting_min [OF aug] by simp_all
  have dec: "res (chain_aug g ns d) 0 b = res g 0 b - d \<and> d \<le> res g 0 b"
    if "pflow ns 0 b = 1" "b < NODE_COUNT" for b
  proof -
    have le: "d \<le> res g 0 b" unfolding d_def using that(1) by (rule augmenting_min(3) [OF aug])
    have "res g 0 b \<le> INT_MAX" using wf that(2) by (simp add: wf_graph_def)
    then have "int32 (res g 0 b - d) = res g 0 b - d" using le d by (intro int32_id) simp_all
    then show ?thesis using that(1) le by (simp add: res_augment [OF sq aug])
  qed
  have same: "res (chain_aug g ns d) 0 b = res g 0 b" if "pflow ns 0 b \<noteq> 1" for b
  proof -
    have "chain_ok g p ns" using aug by (simp add: augmenting_def)
    then have "pchain p ns" by (rule chain_ok_pchain)
    then have "0 \<le> pflow ns 0 b" by (rule pflow_src_nonneg)
    then show ?thesis using that by (simp add: res_augment [OF sq aug])
  qed
  have le: "nat (res (chain_aug g ns d) 0 b) \<le> nat (res g 0 b)" if "b < NODE_COUNT" for b
    using dec [OF _ that] same [of b] d by (cases "pflow ns 0 b = 1") simp_all
  obtain b where b: "b < NODE_COUNT" "pflow ns 0 b = 1"
    using augmenting_src_edge [OF aug] by blast
  have lt: "nat (res (chain_aug g ns d) 0 b) < nat (res g 0 b)"
    using dec [OF b(2,1)] d by simp
  show ?thesis unfolding srcsum_def
    by (rule sum_strict_mono_ex1) (use le lt b in auto)
qed

text \<open>
  The loop ends, and a property of the graph and the flow that every augmentation
  preserves holds of its result.
\<close>

lemma ff_loop_invariant:
  assumes step: "\<And>g p g' p' d max_flow. wf_graph g \<Longrightarrow> length p = NODE_COUNT \<Longrightarrow>
      I g p max_flow \<Longrightarrow> ff_iteration g p = Some (Inr (Augmented g' p' d)) \<Longrightarrow>
      I g' p' (int32 (max_flow + d))"
  shows "wf_graph g \<Longrightarrow> length p = NODE_COUNT \<Longrightarrow> I g p max_flow \<Longrightarrow>
     \<exists>g' p' p0 flow. ff_loop g p max_flow = Some (Inr (g', p', flow)) \<and> wf_graph g' \<and>
        TARGET_NODE_ID \<notin> reachable g' \<and> length p0 = NODE_COUNT \<and> I g' p0 flow"
proof (induction "srcsum g" arbitrary: g p max_flow rule: less_induct)
  case less
  have sq: "square g" using less.prems(1) by (simp add: wf_graph_def)
  from ff_iteration_cases [OF sq less.prems(2)] obtain p' where
    p': "length p' = NODE_COUNT"
      "if TARGET_NODE_ID \<in> reachable g
           then \<exists>ns. augmenting g p' ns \<and>
                  min_flow_walk g p' (int TARGET_NODE_ID) INT_MAX = Some (Inr (chain_min g ns INT_MAX)) \<and>
                  (\<forall>d. augment_walk g p' (int TARGET_NODE_ID) d =
                         Some (Inr (chain_aug g ns d, chain_reset p' ns))) \<and>
                  ff_iteration g p = Some (Inr (Augmented (chain_aug g ns (chain_min g ns INT_MAX))
                     (chain_reset p' ns) (chain_min g ns INT_MAX)))
           else ff_iteration g p = Some (Inr (Done p'))"
    by blast
  show ?case
  proof (cases "TARGET_NODE_ID \<in> reachable g")
    case False
    then have "ff_loop g p max_flow = Some (Inr (g, p', max_flow))"
      using p'(2) by (subst ff_loop.simps) simp
    then show ?thesis using False less.prems by blast
  next
    case True
    then obtain ns where ns: "augmenting g p' ns"
      "ff_iteration g p = Some (Inr (Augmented (chain_aug g ns (chain_min g ns INT_MAX))
                     (chain_reset p' ns) (chain_min g ns INT_MAX)))"
      using p'(2) by auto
    let ?d = "chain_min g ns INT_MAX"
    let ?g = "chain_aug g ns ?d"
    have "ff_loop g p max_flow = ff_loop ?g (chain_reset p' ns) (int32 (max_flow + ?d))"
      using ns(2) by (subst ff_loop.simps) simp
    moreover have "\<exists>g' p'' p0 flow. ff_loop ?g (chain_reset p' ns) (int32 (max_flow + ?d)) =
        Some (Inr (g', p'', flow)) \<and> wf_graph g' \<and> TARGET_NODE_ID \<notin> reachable g' \<and>
        length p0 = NODE_COUNT \<and> I g' p0 flow"
    proof (rule less.hyps)
      show "srcsum ?g < srcsum g" using less.prems(1) ns(1) by (rule srcsum_augment)
      show "wf_graph ?g" using less.prems(1) ns(1) by (rule wf_graph_augment)
      show "length (chain_reset p' ns) = NODE_COUNT" using p'(1) by (simp add: length_chain_reset)
      show "I ?g (chain_reset p' ns) (int32 (max_flow + ?d))"
        using less.prems ns(2) by (rule step)
    qed
    ultimately show ?thesis by simp
  qed
qed

lemma edge_flow_square:
  "square g \<Longrightarrow> u < NODE_COUNT \<Longrightarrow> v < NODE_COUNT \<Longrightarrow>
     edge_flow g (int u) (int v) = Inr (int32 (orig g u v - res g u v))"
  by (simp add: edge_flow_def getOriginalCapacity_square getResidualCapacity_square)

lemma print_flows_square:
  assumes "square g"
  shows "\<exists>out. print_flows g flow_lines = Inr out"
proof -
  have e: "edge_flow g u v = Inr (int32 (orig g (nat u) (nat v) - res g (nat u) (nat v)))"
    if "0 \<le> u" "u < 6" "0 \<le> v" "v < 6" for u v
    using edge_flow_square [OF assms, of "nat u" "nat v"] that by simp
  show ?thesis by (simp add: flow_lines_def e)
qed

definition initial_path :: "residualGraphNode list" where
  "initial_path = map (\<lambda>i. \<lparr>node_id = i, parent_id = INVALID_PARENT\<rparr>) [0..<NODE_COUNT]"

lemma fordFulkerson_invariant:
  assumes step: "\<And>g p g' p' d max_flow. wf_graph g \<Longrightarrow> length p = NODE_COUNT \<Longrightarrow>
      I g p max_flow \<Longrightarrow> ff_iteration g p = Some (Inr (Augmented g' p' d)) \<Longrightarrow>
      I g' p' (int32 (max_flow + d))"
    and wf: "wf_graph g" and init: "I g initial_path 0"
  shows "\<exists>flow g' out p0. fordFulkerson g = Some (Inr (flow, g', out)) \<and> wf_graph g' \<and>
        TARGET_NODE_ID \<notin> reachable g' \<and> length p0 = NODE_COUNT \<and> I g' p0 flow"
proof -
  have "length initial_path = NODE_COUNT" by (simp add: initial_path_def)
  then have "\<exists>g' p' p0 flow. ff_loop g initial_path 0 = Some (Inr (g', p', flow)) \<and> wf_graph g' \<and>
        TARGET_NODE_ID \<notin> reachable g' \<and> length p0 = NODE_COUNT \<and> I g' p0 flow"
    using wf init by (intro ff_loop_invariant [where I = I] step)
  then obtain g' p' p0 flow where
    l: "ff_loop g initial_path 0 = Some (Inr (g', p', flow))" "wf_graph g'"
      "TARGET_NODE_ID \<notin> reachable g'" "length p0 = NODE_COUNT" "I g' p0 flow"
    by blast
  obtain out where out: "print_flows g' flow_lines = Inr out"
    using print_flows_square [of g'] l(2) by (auto simp: wf_graph_def)
  have "fordFulkerson g = Some (Inr (flow, g',
     Str ''Printing flows through all the edges that sum up to the maximum flow.\<newline>'' # out))"
    using l(1) out unfolding fordFulkerson_def initial_path_def [symmetric] by simp
  then show ?thesis using l by blast
qed

section \<open>Concrete graphs\<close>

lemma all_less_6:
  "(\<forall>u<NODE_COUNT. P u) \<longleftrightarrow> P 0 \<and> P 1 \<and> P 2 \<and> P 3 \<and> P 4 \<and> P (5::nat)"
proof -
  have "u < 6 \<longleftrightarrow> u = 0 \<or> u = 1 \<or> u = 2 \<or> u = 3 \<or> u = 4 \<or> u = 5" for u :: nat
    by auto
  then show ?thesis by auto
qed

text \<open>The graph that \<open>main\<close> passes to \<open>fordFulkerson\<close>.\<close>

definition main_residual_graph :: graph where
  "main_residual_graph = (case main_graph of Inr g \<Rightarrow> g | Inl e \<Rightarrow> [])"

text \<open>
  The capacity of a cut: the sum of the original capacities of the edges from the
  nodes of \<open>S\<close> to the nodes of \<open>T\<close>.
\<close>

definition cut_capacity :: "graph \<Rightarrow> nat list \<Rightarrow> nat list \<Rightarrow> int" where
  "cut_capacity g S T = (\<Sum>u\<leftarrow>S. \<Sum>v\<leftarrow>T. orig g u v)"

definition mk_graph :: "(int \<times> int) list list \<Rightarrow> graph" where
  "mk_graph rows = map (map (\<lambda>(r, c). \<lparr>residual_capacity = r, original_capacity = c\<rparr>)) rows"

lemma main_graph_eq:
  "main_graph = Inr (mk_graph
     [[(0, 0), (4, 4), (7, 7), (10, 10), (0, 0), (0, 0)],
      [(0, 0), (0, 0), (0, 0), (0, 0), (2, 2), (10, 10)],
      [(0, 0), (2, 2), (0, 0), (2, 2), (10, 10), (0, 0)],
      [(0, 0), (0, 0), (0, 0), (0, 0), (2, 2), (6, 6)],
      [(0, 0), (0, 0), (0, 0), (0, 0), (0, 0), (7, 7)],
      [(0, 0), (0, 0), (0, 0), (0, 0), (0, 0), (0, 0)]])"
  by code_simp

lemma main_residual_graph_eq:
  "main_residual_graph = mk_graph
     [[(0, 0), (4, 4), (7, 7), (10, 10), (0, 0), (0, 0)],
      [(0, 0), (0, 0), (0, 0), (0, 0), (2, 2), (10, 10)],
      [(0, 0), (2, 2), (0, 0), (2, 2), (10, 10), (0, 0)],
      [(0, 0), (0, 0), (0, 0), (0, 0), (2, 2), (6, 6)],
      [(0, 0), (0, 0), (0, 0), (0, 0), (0, 0), (7, 7)],
      [(0, 0), (0, 0), (0, 0), (0, 0), (0, 0), (0, 0)]]"
  by (simp add: main_residual_graph_def main_graph_eq)

lemma wf_main_residual_graph: "wf_graph main_residual_graph"
  by (simp add: wf_graph_def square_def all_less_6 res_def main_residual_graph_eq mk_graph_def)

lemma main_fordFulkerson:
  "fordFulkerson main_residual_graph = Some (Inr (19, mk_graph
     [[(0, 0), (0, 4), (0, 7), (2, 10), (0, 0), (0, 0)],
      [(4, 0), (0, 0), (2, 0), (0, 0), (2, 2), (4, 10)],
      [(7, 0), (0, 2), (0, 0), (2, 2), (5, 10), (0, 0)],
      [(8, 0), (0, 0), (0, 0), (0, 0), (0, 2), (0, 6)],
      [(0, 0), (0, 0), (5, 0), (2, 0), (0, 0), (0, 7)],
      [(0, 0), (6, 0), (0, 0), (6, 0), (7, 0), (0, 0)]],
     [Str ''Printing flows through all the edges that sum up to the maximum flow.\<newline>'',
      Str ''Flow through s->w: '', Num 4, Str ''\<newline>'',
      Str ''Flow through s->x: '', Num 7, Str ''\<newline>'',
      Str ''Flow through s->z: '', Num 8, Str ''\<newline>'',
      Str ''Flow through w->y: '', Num 0, Str ''\<newline>'',
      Str ''Flow through w->t: '', Num 6, Str ''\<newline>'',
      Str ''Flow through x->w: '', Num 2, Str ''\<newline>'',
      Str ''Flow through x->z: '', Num 0, Str ''\<newline>'',
      Str ''Flow through x->y: '', Num 5, Str ''\<newline>'',
      Str ''Flow through z->y: '', Num 2, Str ''\<newline>'',
      Str ''Flow through z->t: '', Num 6, Str ''\<newline>'',
      Str ''Flow through y->w: '', Num 7, Str ''\<newline>'']))"
  by code_simp

lemma main_cut:
  "bfs (mk_graph
     [[(0, 0), (0, 4), (0, 7), (2, 10), (0, 0), (0, 0)],
      [(4, 0), (0, 0), (2, 0), (0, 0), (2, 2), (4, 10)],
      [(7, 0), (0, 2), (0, 0), (2, 2), (5, 10), (0, 0)],
      [(8, 0), (0, 0), (0, 0), (0, 0), (0, 2), (0, 6)],
      [(0, 0), (0, 0), (5, 0), (2, 0), (0, 0), (0, 7)],
      [(0, 0), (6, 0), (0, 0), (6, 0), (7, 0), (0, 0)]]) (Some []) (Some []) None =
   Inr \<lparr>reached = False, sPath = Some [0, 3], tPath = Some [1, 2, 4, 5], parents = None\<rparr>"
  by code_simp

lemma main_cut_capacity:
  "cut_capacity (mk_graph
     [[(0, 0), (0, 4), (0, 7), (2, 10), (0, 0), (0, 0)],
      [(4, 0), (0, 0), (2, 0), (0, 0), (2, 2), (4, 10)],
      [(7, 0), (0, 2), (0, 0), (2, 2), (5, 10), (0, 0)],
      [(8, 0), (0, 0), (0, 0), (0, 0), (0, 2), (0, 6)],
      [(0, 0), (0, 0), (5, 0), (2, 0), (0, 0), (0, 7)],
      [(0, 0), (6, 0), (0, 0), (6, 0), (7, 0), (0, 0)]]) [0, 3] [1, 2, 4, 5] = 19"
  by code_simp

definition main_output :: "cout_item list" where
  "main_output =
     [Str ''Max flow found after running Ford Fulkerson algorithm: '',
      Str ''Printing flows through all the edges that sum up to the maximum flow.\<newline>'',
      Str ''Flow through s->w: '', Num 4, Str ''\<newline>'',
      Str ''Flow through s->x: '', Num 7, Str ''\<newline>'',
      Str ''Flow through s->z: '', Num 8, Str ''\<newline>'',
      Str ''Flow through w->y: '', Num 0, Str ''\<newline>'',
      Str ''Flow through w->t: '', Num 6, Str ''\<newline>'',
      Str ''Flow through x->w: '', Num 2, Str ''\<newline>'',
      Str ''Flow through x->z: '', Num 0, Str ''\<newline>'',
      Str ''Flow through x->y: '', Num 5, Str ''\<newline>'',
      Str ''Flow through z->y: '', Num 2, Str ''\<newline>'',
      Str ''Flow through z->t: '', Num 6, Str ''\<newline>'',
      Str ''Flow through y->w: '', Num 7, Str ''\<newline>'',
      Num 19, Str ''\<newline>'',
      Str ''\<newline>Minimum s-t cut \<newline>'', Str ''Nodes at the s side:\<newline>'',
      Str ''s'', Str '' '', Str ''z'', Str '' '', Str ''\<newline>'',
      Str ''Nodes at the t side:\<newline>'',
      Str ''w'', Str '' '', Str ''x'', Str '' '', Str ''y'', Str '' '', Str ''t'', Str '' '',
      Str ''\<newline>'']"

lemma main_eq: "main = Some (Inr (main_output, 0))"
  by code_simp

section \<open>The scenario of main\<close>

text \<open>
  C1, as the code behaves: on the graph that \<open>main\<close> builds, \<open>fordFulkerson\<close> returns
  19, \<open>bfs\<close> on the graph it leaves does not reach the target and puts \<open>s\<close> and
  \<open>z\<close> on the side of the source and the other four nodes on the side of the target,
  and the original capacities of the edges across this cut add up to 19; \<open>main\<close> writes this flow and this cut and returns 0.
\<close>

theorem main_max_flow_min_cut:
  "\<exists>g g' out b. main_graph = Inr g \<and>
     fordFulkerson g = Some (Inr (19, g', out)) \<and>
     bfs g' (Some []) (Some []) None = Inr b \<and> \<not> reached b \<and>
     sPath b = Some [0, 3] \<and> tPath b = Some [1, 2, 4, 5] \<and>
     cut_capacity g' [0, 3] [1, 2, 4, 5] = 19 \<and>
     main = Some (Inr (main_output, 0))"
  using main_graph_eq main_fordFulkerson [unfolded main_residual_graph_eq] main_cut main_cut_capacity
    main_eq
  by (intro exI conjI) (assumption | simp)+

text \<open>C1, as the specification states it, fails: the value returned is not 14.\<close>

theorem main_max_flow_not_14:
  "main_graph = Inr main_residual_graph \<and>
   map_option (map_sum id fst) (fordFulkerson main_residual_graph) \<noteq> Some (Inr 14)"
proof
  show "main_graph = Inr main_residual_graph"
    by (simp add: main_graph_eq main_residual_graph_eq)
  show "map_option (map_sum id fst) (fordFulkerson main_residual_graph) \<noteq> Some (Inr 14)"
    by (simp add: main_fordFulkerson)
qed

section \<open>The loop ends\<close>

text \<open>
  C3: on every graph of six by six edges with residual capacities in the range of
  \<open>int\<close> (non-negative ones among them), \<open>fordFulkerson\<close> returns; and every round of
  the loop that augments does so by a bottleneck of at least 1, leaves a graph of the
  same kind, and lowers the residual capacity that is left on the edges out of the
  source, which bounds the number of rounds.
\<close>

theorem fordFulkerson_terminates:
  assumes "wf_graph g"
  shows "(\<exists>flow g' out. fordFulkerson g = Some (Inr (flow, g', out))) \<and>
     (\<forall>p g' p' d. length p = NODE_COUNT \<and> ff_iteration g p = Some (Inr (Augmented g' p' d)) \<longrightarrow>
        0 < d \<and> wf_graph g' \<and> srcsum g' < srcsum g)"
proof
  show "\<exists>flow g' out. fordFulkerson g = Some (Inr (flow, g', out))"
    using fordFulkerson_invariant [of "\<lambda>g p f. True" g] assms by blast
next
  show "\<forall>p g' p' d. length p = NODE_COUNT \<and> ff_iteration g p = Some (Inr (Augmented g' p' d)) \<longrightarrow>
        0 < d \<and> wf_graph g' \<and> srcsum g' < srcsum g"
  proof (intro allI impI, elim conjE)
    fix p g' p' d
    assume len: "length p = NODE_COUNT" and it: "ff_iteration g p = Some (Inr (Augmented g' p' d))"
    have sq: "square g" using assms by (simp add: wf_graph_def)
    from ff_iteration_cases [OF sq len] it obtain q ns where
      ns: "augmenting g q ns" "g' = chain_aug g ns (chain_min g ns INT_MAX)"
        "d = chain_min g ns INT_MAX"
      by (auto split: if_splits)
    show "0 < d \<and> wf_graph g' \<and> srcsum g' < srcsum g"
      unfolding ns(2,3)
      using augmenting_min(1) [OF ns(1)] wf_graph_augment [OF assms ns(1)] srcsum_augment [OF assms ns(1)]
      by simp
  qed
qed

theorem fordFulkerson_terminates_witness:
  "wf_graph main_residual_graph \<and>
   (\<exists>flow g' out. fordFulkerson main_residual_graph = Some (Inr (flow, g', out)))"
  using fordFulkerson_terminates [OF wf_main_residual_graph] wf_main_residual_graph by simp

section \<open>The result of bfs\<close>

text \<open>
  C7: on every graph of six by six edges, with any parent buffer of six nodes or
  none, \<open>bfs\<close> returns true exactly when the target can be reached from the source
  along edges of positive residual capacity; and when both partition buffers are
  given, the node ids from 0 to 5 that can be reached so are appended, in order, to
  the first and the others to the second, whatever the returned flag.
\<close>

theorem bfs_reached_and_partition:
  assumes "square g" "buffer_ok oP"
  shows "(\<exists>b. bfs g sP tP oP = Inr b \<and> reached b = (TARGET_NODE_ID \<in> reachable g)) \<and>
     (\<exists>b. bfs g (Some sp) (Some tp) oP = Inr b \<and>
        reached b = (TARGET_NODE_ID \<in> reachable g) \<and>
        sPath b = Some (sp @ filter (\<lambda>v. v \<in> reachable g) [0..<NODE_COUNT]) \<and>
        tPath b = Some (tp @ filter (\<lambda>v. v \<notin> reachable g) [0..<NODE_COUNT]))"
proof
  show "\<exists>b. bfs g sP tP oP = Inr b \<and> reached b = (TARGET_NODE_ID \<in> reachable g)"
    using bfs_correct [OF assms, of sP tP] by blast
next
  from bfs_correct [OF assms, of "Some sp" "Some tp"] obtain b where
    b: "bfs g (Some sp) (Some tp) oP = Inr b" "reached b = (TARGET_NODE_ID \<in> reachable g)"
      "(sPath b, tPath b) = partition_of g (Some sp) (Some tp)"
    by blast
  from b(3) have "sPath b = Some (sp @ filter (\<lambda>v. v \<in> reachable g) [0..<NODE_COUNT])"
     "tPath b = Some (tp @ filter (\<lambda>v. v \<notin> reachable g) [0..<NODE_COUNT])"
    by (simp_all add: partition_of_def)
  with b(1,2) show "\<exists>b. bfs g (Some sp) (Some tp) oP = Inr b \<and>
        reached b = (TARGET_NODE_ID \<in> reachable g) \<and>
        sPath b = Some (sp @ filter (\<lambda>v. v \<in> reachable g) [0..<NODE_COUNT]) \<and>
        tPath b = Some (tp @ filter (\<lambda>v. v \<notin> reachable g) [0..<NODE_COUNT])"
    by blast
qed

lemma square_main_residual_graph: "square main_residual_graph"
  using wf_main_residual_graph by (simp add: wf_graph_def)

theorem bfs_reached_and_partition_witness:
  "square main_residual_graph \<and> buffer_ok None \<and>
   (\<exists>b. bfs main_residual_graph (Some []) (Some []) None = Inr b \<and>
      reached b = (TARGET_NODE_ID \<in> reachable main_residual_graph) \<and>
      sPath b = Some (filter (\<lambda>v. v \<in> reachable main_residual_graph) [0..<NODE_COUNT]) \<and>
      tPath b = Some (filter (\<lambda>v. v \<notin> reachable main_residual_graph) [0..<NODE_COUNT]))"
proof -
  have b: "buffer_ok None" by (simp add: buffer_ok_def)
  from bfs_reached_and_partition [OF square_main_residual_graph b, of None None "[]" "[]"]
  show ?thesis using square_main_residual_graph b by simp
qed

section \<open>The report of findMinCut\<close>

definition failure_report :: "cout_item list" where
  "failure_report =
     [Str ''The residual graph still has one or more augmenting paths. Failed to compute minimum s-t cut.\<newline>'']"

definition cut_report :: "nat list \<Rightarrow> nat list \<Rightarrow> cout_item list" where
  "cut_report S T =
     [Str ''\<newline>Minimum s-t cut \<newline>'', Str ''Nodes at the s side:\<newline>''] @
     concat (map (\<lambda>i. [Str (nodeName ! i), Str '' '']) S) @
     [Str ''\<newline>'', Str ''Nodes at the t side:\<newline>''] @
     concat (map (\<lambda>i. [Str (nodeName ! i), Str '' '']) T) @ [Str ''\<newline>'']"

lemma for_each_names:
  "\<forall>i\<in>set ns. i < NODE_COUNT \<Longrightarrow>
     for_each (\<lambda>out i. ebind (idx nodeName (int i)) (\<lambda>n. Inr (out @ [Str n, Str '' '']))) ns acc =
       Inr (acc @ concat (map (\<lambda>i. [Str (nodeName ! i), Str '' '']) ns))"
proof (induction ns arbitrary: acc)
  case Nil
  then show ?case by simp
next
  case (Cons i ns)
  have "idx nodeName (int i) = Inr (nodeName ! i)"
    using Cons.prems by (intro idx_int) (simp add: nodeName_def)
  then show ?case using Cons by simp
qed

lemma print_names_eq:
  "\<forall>i\<in>set ns. i < NODE_COUNT \<Longrightarrow>
     print_names ns = Inr (concat (map (\<lambda>i. [Str (nodeName ! i), Str '' '']) ns))"
  by (simp add: print_names_def for_each_names)

lemma findMinCut_eq:
  assumes "square g"
  shows "findMinCut g =
     Inr (if TARGET_NODE_ID \<in> reachable g then failure_report
          else cut_report (filter (\<lambda>v. v \<in> reachable g) [0..<NODE_COUNT])
                 (filter (\<lambda>v. v \<notin> reachable g) [0..<NODE_COUNT]))"
proof -
  have "buffer_ok None" by (simp add: buffer_ok_def)
  from bfs_correct [OF assms this, of "Some []" "Some []"] obtain b where
    b: "bfs g (Some []) (Some []) None = Inr b" "reached b = (TARGET_NODE_ID \<in> reachable g)"
      "(sPath b, tPath b) = partition_of g (Some []) (Some [])"
    by blast
  from b(3) have p: "sPath b = Some (filter (\<lambda>v. v \<in> reachable g) [0..<NODE_COUNT])"
     "tPath b = Some (filter (\<lambda>v. v \<notin> reachable g) [0..<NODE_COUNT])"
    by (simp_all add: partition_of_def)
  show ?thesis
    using b(1,2) p
    by (simp add: findMinCut_def failure_report_def cut_report_def print_names_eq)
qed

lemma cut_report_neq_failure: "cut_report S T \<noteq> failure_report"
  by (simp add: cut_report_def failure_report_def)

text \<open>
  C4: when the target can still be reached from the source along edges of positive
  residual capacity, \<open>findMinCut\<close> writes the failure message and nothing else: no
  node name and no partition. Every call on a graph without such a path writes the
  report of a cut, which is different from the failure message.
\<close>

theorem findMinCut_signals_failure:
  assumes "square g" "TARGET_NODE_ID \<in> reachable g"
  shows "findMinCut g = Inr failure_report \<and>
     (\<forall>g'. square g' \<and> TARGET_NODE_ID \<notin> reachable g' \<longrightarrow>
        (\<exists>S T. findMinCut g' = Inr (cut_report S T)) \<and> findMinCut g' \<noteq> findMinCut g)"
  using assms by (auto simp: findMinCut_eq cut_report_neq_failure)

theorem findMinCut_signals_failure_witness:
  "square main_residual_graph \<and> findMinCut main_residual_graph = Inr failure_report"
proof -
  have "(0, 1) \<in> pos_edges main_residual_graph" "(1, 5) \<in> pos_edges main_residual_graph"
    by (simp_all add: pos_edges_def res_def main_residual_graph_eq mk_graph_def)
  then have "TARGET_NODE_ID \<in> reachable main_residual_graph"
    unfolding reachable_def by (auto intro: rtrancl_trans)
  from findMinCut_signals_failure [OF square_main_residual_graph this]
  show ?thesis using square_main_residual_graph by simp
qed

section \<open>The parent chain does not depend on what the buffer held\<close>

definition same_search :: "bfs_state \<Rightarrow> bfs_state \<Rightarrow> bool" where
  "same_search s1 s2 \<longleftrightarrow> trav s1 = trav s2 \<and> bfs_q s1 = bfs_q s2 \<and>
     (\<exists>p1 p2. outPath s1 = Some p1 \<and> outPath s2 = Some p2 \<and>
        (\<forall>v\<in>visited s1. v \<noteq> SOURCE_NODE_ID \<longrightarrow> parent_id (p1 ! v) = parent_id (p2 ! v)))"

lemma same_search_visit:
  assumes "shape s1" "shape s2" "same_search s1 s2" "i < NODE_COUNT"
  shows "same_search (visit g node s1 i) (visit g node s2 i)"
proof -
  from assms(3) obtain p1 p2 where p: "trav s1 = trav s2" "bfs_q s1 = bfs_q s2"
    "outPath s1 = Some p1" "outPath s2 = Some p2"
    "\<forall>v\<in>visited s1. v \<noteq> 0 \<longrightarrow> parent_id (p1 ! v) = parent_id (p2 ! v)"
    unfolding same_search_def by blast
  have len: "length p1 = NODE_COUNT" "length p2 = NODE_COUNT" "length (trav s1) = NODE_COUNT"
    using assms(1,2) p(3,4) by (simp_all add: shape_def)
  show ?thesis
  proof (cases "\<not> trav s1 ! i \<and> 0 < res g node i")
    case False
    then have "visit g node s1 i = s1" "visit g node s2 i = s2"
      using p(1) by (auto simp: visit_def)
    then show ?thesis using assms(3) by simp
  next
    case True
    then have v1: "visit g node s1 i = s1\<lparr>trav := (trav s1)[i := True], bfs_q := bfs_q s1 @ [i],
             outPath := Some (p1[i := (p1 ! i)\<lparr>parent_id := int node\<rparr>])\<rparr>"
      using p(3) by (simp add: visit_def)
    from True have v2: "visit g node s2 i = s2\<lparr>trav := (trav s2)[i := True], bfs_q := bfs_q s2 @ [i],
             outPath := Some (p2[i := (p2 ! i)\<lparr>parent_id := int node\<rparr>])\<rparr>"
      using p(1,4) by (simp add: visit_def)
    show ?thesis
      unfolding v1 v2 same_search_def
      using p(1,2,5) len assms(4)
      by (auto simp: visited_def nth_list_update)
  qed
qed

lemma same_search_fold_visit:
  "shape s1 \<Longrightarrow> shape s2 \<Longrightarrow> same_search s1 s2 \<Longrightarrow> \<forall>i\<in>set is. i < NODE_COUNT \<Longrightarrow>
     same_search (fold (\<lambda>i s. visit g node s i) is s1) (fold (\<lambda>i s. visit g node s i) is s2)"
proof (induction "is" arbitrary: s1 s2)
  case Nil
  then show ?case by simp
next
  case (Cons i "is")
  then show ?case by (simp add: same_search_visit shape_visit)
qed

lemma bfs_loop_same_search:
  "square g \<Longrightarrow> bfs_inv g s1 \<Longrightarrow> shape s2 \<Longrightarrow> same_search s1 s2 \<Longrightarrow>
     \<exists>s1' s2'. bfs_loop g s1 = Inr s1' \<and> bfs_loop g s2 = Inr s2' \<and> same_search s1' s2'"
proof (induction g s1 arbitrary: s2 rule: bfs_loop.induct)
  case (1 g s)
  have q: "bfs_q s2 = bfs_q s" using "1.prems"(4) by (simp add: same_search_def)
  show ?case
  proof (cases "bfs_q s")
    case Nil
    then show ?thesis using "1.prems"(4) q by (simp add: bfs_loop.simps)
  next
    case (Cons node rest)
    let ?f = "fold (\<lambda>i s. visit g node s i) [0..<NODE_COUNT]"
    let ?s0 = "s\<lparr>bfs_q := rest\<rparr>" and ?t0 = "s2\<lparr>bfs_q := rest\<rparr>"
    have sh0: "shape ?s0" using "1.prems"(2) by (simp add: bfs_inv_def shape_def)
    have th0: "shape ?t0" using "1.prems"(3) by (simp add: shape_def)
    have node: "node < NODE_COUNT"
      using "1.prems"(2) Cons by (auto simp: bfs_inv_def intro: visited_less)
    have fe: "for_each (bfs_visit g node) [0..<NODE_COUNT] ?s0 = Inr (?f ?s0)"
      using "1.prems"(1) sh0 node by (intro for_each_visit_eq) auto
    have fe2: "for_each (bfs_visit g node) [0..<NODE_COUNT] ?t0 = Inr (?f ?t0)"
      using "1.prems"(1) th0 node by (intro for_each_visit_eq) auto
    have inv1: "bfs_inv g (?f ?s0)" using "1.prems"(2) Cons by (rule bfs_inv_step)
    have "visited ?s0 = visited s" by (simp add: visited_def)
    then have "same_search ?s0 ?t0"
      using "1.prems"(4) unfolding same_search_def by simp
    then have ss: "same_search (?f ?s0) (?f ?t0)"
      using sh0 th0 by (intro same_search_fold_visit) auto
    have l1: "bfs_loop g s = bfs_loop g (?f ?s0)"
      using Cons fe by (subst bfs_loop.simps) simp
    have l2: "bfs_loop g s2 = bfs_loop g (?f ?t0)"
      using Cons q fe2 by (subst bfs_loop.simps) simp
    show ?thesis
      unfolding l1 l2
      using "1.prems"(1) inv1 ss th0
      by (intro "1.IH" [OF Cons fe]) (simp_all add: shape_fold_visit)
  qed
qed

lemma bfs_parents_independent:
  assumes sq: "square g" and l1: "length path1 = NODE_COUNT" and l2: "length path2 = NODE_COUNT"
  shows "\<exists>b1 b2 p1 p2. bfs g None None (Some path1) = Inr b1 \<and> bfs g None None (Some path2) = Inr b2 \<and>
     parents b1 = Some p1 \<and> parents b2 = Some p2 \<and>
     (\<forall>v\<in>reachable g. v \<noteq> SOURCE_NODE_ID \<longrightarrow> parent_id (p1 ! v) = parent_id (p2 ! v))"
proof -
  let ?s1 = "bfs_start (Some path1)" and ?s2 = "bfs_start (Some path2)"
  have inv: "bfs_inv g ?s1" using l1 by (intro bfs_inv_start) (simp add: buffer_ok_def)
  have inv2: "bfs_inv g ?s2" using l2 by (intro bfs_inv_start) (simp add: buffer_ok_def)
  have sh: "shape ?s2" using inv2 by (simp add: bfs_inv_def)
  have "same_search ?s1 ?s2"
    unfolding same_search_def visited_bfs_start by (simp add: bfs_start_def)
  from bfs_loop_same_search [OF sq inv sh this] obtain s1 s2 where
    s: "bfs_loop g ?s1 = Inr s1" "bfs_loop g ?s2 = Inr s2" "same_search s1 s2"
    by blast
  from bfs_loop_inv [OF sq inv] s(1) have f: "bfs_inv g s1" "bfs_q s1 = []" by auto
  have V: "visited s1 = reachable g" using f by (rule bfs_inv_final)
  from s(3) obtain p1 p2 where p: "outPath s1 = Some p1" "outPath s2 = Some p2"
    "trav s1 = trav s2"
    "\<forall>v\<in>visited s1. v \<noteq> 0 \<longrightarrow> parent_id (p1 ! v) = parent_id (p2 ! v)"
    unfolding same_search_def by blast
  have len: "length (trav s1) = NODE_COUNT" using f(1) by (simp add: bfs_inv_def shape_def)
  have "bfs g None None (Some path1) =
      Inr \<lparr>reached = trav s1 ! TARGET_NODE_ID, sPath = None, tPath = None, parents = Some p1\<rparr>"
    unfolding bfs_eq s(1) using p(1) len by (simp add: at_def)
  moreover have "bfs g None None (Some path2) =
      Inr \<lparr>reached = trav s2 ! TARGET_NODE_ID, sPath = None, tPath = None, parents = Some p2\<rparr>"
    unfolding bfs_eq s(2) using p(2,3) len by (simp add: at_def)
  ultimately show ?thesis using p(4) V by simp
qed

lemma chain_ok_nth:
  "chain_ok g p ns \<Longrightarrow> Suc i < length ns \<Longrightarrow>
     parent_id (p ! (ns ! i)) = int (ns ! Suc i) \<and> 0 < res g (ns ! Suc i) (ns ! i) \<and>
     ns ! i \<noteq> SOURCE_NODE_ID"
proof (induction g p ns arbitrary: i rule: chain_ok.induct)
  case (3 g p c u ns)
  then show ?case by (cases i) auto
qed simp_all

lemma chain_ok_cong_nonsource:
  "\<forall>v\<in>set ns. v \<noteq> SOURCE_NODE_ID \<longrightarrow> parent_id (p' ! v) = parent_id (p ! v) \<Longrightarrow>
     chain_ok g p' ns = chain_ok g p ns"
proof (induction ns)
  case Nil
  then show ?case by simp
next
  case (Cons c ns)
  then show ?case by (cases ns) auto
qed

text \<open>
  C10: when \<open>bfs\<close>, called with a parent buffer of six nodes of any content, returns
  true, the buffer it leaves holds a chain \<open>ns\<close> from the target to the source:
  the parent id read at each node of the chain is the next node of the chain, a node
  id below 6 (so never \<open>INVALID_PARENT\<close>), the edge from it has positive residual
  capacity, and no node occurs twice. Both walks of \<open>fordFulkerson\<close> follow it and
  return without an error. The chain is the same whatever the buffer held before the
  call: its parent ids were written by this call.
\<close>

theorem parent_chain_walks_safe:
  assumes "square g" "length path = NODE_COUNT"
    "bfs g None None (Some path) = Inr b" "reached b"
  shows "\<exists>p ns. parents b = Some p \<and> augmenting g p ns \<and> last ns = SOURCE_NODE_ID \<and>
     (\<forall>i. Suc i < length ns \<longrightarrow>
        parent_id (p ! (ns ! i)) = int (ns ! Suc i) \<and> ns ! Suc i < NODE_COUNT \<and>
        parent_id (p ! (ns ! i)) \<noteq> INVALID_PARENT \<and> 0 < res g (ns ! Suc i) (ns ! i)) \<and>
     min_flow_walk g p (int TARGET_NODE_ID) INT_MAX = Some (Inr (chain_min g ns INT_MAX)) \<and>
     (\<forall>d. augment_walk g p (int TARGET_NODE_ID) d =
        Some (Inr (chain_aug g ns d, chain_reset p ns))) \<and>
     (\<forall>stale. length stale = NODE_COUNT \<longrightarrow>
        (\<exists>b' p'. bfs g None None (Some stale) = Inr b' \<and> reached b' \<and>
           parents b' = Some p' \<and> augmenting g p' ns))"
proof -
  have buf: "buffer_ok (Some path)" using assms(2) by (simp add: buffer_ok_def)
  from bfs_correct [OF assms(1) buf, of None None] assms(3,4) obtain p where
    p: "TARGET_NODE_ID \<in> reachable g" "parents b = Some p" "length p = NODE_COUNT"
      "\<forall>v\<in>reachable g. has_chain g p (reachable g) v"
    by auto
  from p(1,4) obtain ms where ms: "chain_ok g p (TARGET_NODE_ID # ms)"
    "distinct (TARGET_NODE_ID # ms)" "set (TARGET_NODE_ID # ms) \<subseteq> reachable g"
    unfolding has_chain_def by blast
  let ?ns = "TARGET_NODE_ID # ms"
  have rng: "\<forall>v\<in>set ?ns. v < NODE_COUNT" using ms(3) reachable_less by blast
  have aug: "augmenting g p ?ns" using ms rng by (simp add: augmenting_def)
  have pc: "pchain p ?ns" using ms(1) by (rule chain_ok_pchain)
  have w1: "min_flow_walk g p (int TARGET_NODE_ID) INT_MAX = Some (Inr (chain_min g ?ns INT_MAX))"
    using assms(1) p(3) rng pc by (rule min_flow_walk_chain)
  have w2: "\<forall>d. augment_walk g p (int TARGET_NODE_ID) d = Some (Inr (chain_aug g ?ns d, chain_reset p ?ns))"
    using augment_walk_chain [OF assms(1) p(3) rng ms(2) pc] by blast
  have nth: "\<forall>i. Suc i < length ?ns \<longrightarrow>
        parent_id (p ! (?ns ! i)) = int (?ns ! Suc i) \<and> ?ns ! Suc i < NODE_COUNT \<and>
        parent_id (p ! (?ns ! i)) \<noteq> INVALID_PARENT \<and> 0 < res g (?ns ! Suc i) (?ns ! i)"
  proof (intro allI impI)
    fix i assume i: "Suc i < length ?ns"
    from chain_ok_nth [OF ms(1) i]
    have c: "parent_id (p ! (?ns ! i)) = int (?ns ! Suc i)" "0 < res g (?ns ! Suc i) (?ns ! i)"
      by blast+
    have "?ns ! Suc i \<in> set ?ns" using i by (intro nth_mem)
    then have "?ns ! Suc i < NODE_COUNT" using rng by blast
    then show "parent_id (p ! (?ns ! i)) = int (?ns ! Suc i) \<and> ?ns ! Suc i < NODE_COUNT \<and>
        parent_id (p ! (?ns ! i)) \<noteq> INVALID_PARENT \<and> 0 < res g (?ns ! Suc i) (?ns ! i)"
      using c by simp
  qed
  have indep: "\<forall>stale. length stale = NODE_COUNT \<longrightarrow>
        (\<exists>b' p'. bfs g None None (Some stale) = Inr b' \<and> reached b' \<and>
           parents b' = Some p' \<and> augmenting g p' ?ns)"
  proof (intro allI impI)
    fix stale :: "residualGraphNode list" assume st: "length stale = NODE_COUNT"
    from bfs_parents_independent [OF assms(1,2) st] assms(3) p(2) obtain b' p' where
      b': "bfs g None None (Some stale) = Inr b'" "parents b' = Some p'"
        "\<forall>v\<in>reachable g. v \<noteq> 0 \<longrightarrow> parent_id (p ! v) = parent_id (p' ! v)"
      by auto
    have buf': "buffer_ok (Some stale)" using st by (simp add: buffer_ok_def)
    have r: "reached b'" using bfs_correct [OF assms(1) buf', of None None] b'(1) p(1) by auto
    have "\<forall>v\<in>set ?ns. v \<noteq> 0 \<longrightarrow> parent_id (p' ! v) = parent_id (p ! v)"
      using b'(3) ms(3) by auto
    then have "chain_ok g p' ?ns = chain_ok g p ?ns" by (rule chain_ok_cong_nonsource)
    then have "chain_ok g p' ?ns" using ms(1) by blast
    then have "augmenting g p' ?ns" using ms(2) rng by (simp add: augmenting_def)
    then show "\<exists>b' p'. bfs g None None (Some stale) = Inr b' \<and> reached b' \<and>
           parents b' = Some p' \<and> augmenting g p' ?ns"
      using b'(1,2) r by blast
  qed
  have "last ?ns = 0" using ms(1) by (rule chain_ok_last)
  then show ?thesis using p(2) aug nth w1 w2 indep by blast
qed

lemma main_first_bfs:
  "bfs main_residual_graph None None (Some initial_path) =
     Inr \<lparr>reached = True, sPath = None, tPath = None,
       parents = Some [\<lparr>node_id = 0, parent_id = - 1\<rparr>, \<lparr>node_id = 1, parent_id = 0\<rparr>,
         \<lparr>node_id = 2, parent_id = 0\<rparr>, \<lparr>node_id = 3, parent_id = 0\<rparr>,
         \<lparr>node_id = 4, parent_id = 1\<rparr>, \<lparr>node_id = 5, parent_id = 1\<rparr>]\<rparr>"
  by code_simp

theorem parent_chain_walks_safe_witness:
  "square main_residual_graph \<and> length initial_path = NODE_COUNT \<and>
   (\<exists>b p ns. bfs main_residual_graph None None (Some initial_path) = Inr b \<and> reached b \<and>
      parents b = Some p \<and> augmenting main_residual_graph p ns \<and> last ns = SOURCE_NODE_ID)"
proof -
  have l: "length initial_path = NODE_COUNT" by (simp add: initial_path_def)
  from parent_chain_walks_safe [OF square_main_residual_graph l main_first_bfs]
  show ?thesis using square_main_residual_graph l main_first_bfs by auto
qed

section \<open>One augmentation\<close>

text \<open>The edges of a chain, each as (parent, child).\<close>

fun chain_edges :: "nat list \<Rightarrow> (nat \<times> nat) list" where
  "chain_edges (c # u # ns) = (u, c) # chain_edges (u # ns)"
| "chain_edges [v] = []"
| "chain_edges [] = []"

lemma chain_edges_in: "(a, b) \<in> set (chain_edges ns) \<Longrightarrow> a \<in> set ns \<and> b \<in> set ns"
  by (induction ns rule: chain_edges.induct) auto

lemma chain_edges_child: "(a, b) \<in> set (chain_edges ns) \<Longrightarrow> b \<in> set (butlast ns)"
  by (induction ns rule: chain_edges.induct) auto

lemma pflow_chain_edges:
  "distinct ns \<Longrightarrow>
     pflow ns a b = (if (a, b) \<in> set (chain_edges ns) then 1
                     else if (b, a) \<in> set (chain_edges ns) then - 1 else 0)"
proof (induction ns rule: chain_edges.induct)
  case (1 c u ns)
  have nin: "(x, y) \<notin> set (chain_edges (u # ns))" if "x = c \<or> y = c" for x y
    using that "1.prems" chain_edges_in [of x y "u # ns"] by auto
  have uc: "u \<noteq> c" using "1.prems" by auto
  have IH: "pflow (u # ns) a b = (if (a, b) \<in> set (chain_edges (u # ns)) then 1
                     else if (b, a) \<in> set (chain_edges (u # ns)) then - 1 else 0)"
    using 1 by simp
  consider "a = u \<and> b = c" | "a = c \<and> b = u" | "\<not> (a = u \<and> b = c) \<and> \<not> (a = c \<and> b = u)"
    by blast
  then show ?case
  proof cases
    case 1
    then have "unit_flow u c a b = 1" by (simp add: unit_flow_def)
    moreover have "pflow (u # ns) a b = 0" using IH nin [of a b] nin [of b a] 1 by simp
    ultimately show ?thesis using 1 by simp
  next
    case 2
    then have "unit_flow u c a b = - 1" using uc by (simp add: unit_flow_def)
    moreover have "pflow (u # ns) a b = 0" using IH nin [of a b] nin [of b a] 2 by simp
    ultimately show ?thesis using 2 uc nin [of c u] by simp
  next
    case 3
    then have z: "unit_flow u c a b = 0" by (simp add: unit_flow_def)
    have m1: "(a, b) \<in> set (chain_edges (c # u # ns)) \<longleftrightarrow> (a, b) \<in> set (chain_edges (u # ns))"
      using 3 by (simp, blast)
    have m2: "(b, a) \<in> set (chain_edges (c # u # ns)) \<longleftrightarrow> (b, a) \<in> set (chain_edges (u # ns))"
      using 3 by (simp, blast)
    show ?thesis unfolding m1 m2 using IH z by simp
  qed
qed simp_all

lemma chain_reset_nth:
  "distinct ns \<Longrightarrow> \<forall>v\<in>set ns. v < length p \<Longrightarrow>
     chain_reset p ns ! v =
       (if v \<in> set (butlast ns) then (p ! v)\<lparr>parent_id := INVALID_PARENT\<rparr> else p ! v)"
proof (induction p ns rule: chain_reset.induct)
  case (1 p c u ns)
  let ?p = "p[c := (p ! c)\<lparr>parent_id := INVALID_PARENT\<rparr>]"
  have "chain_reset ?p (u # ns) ! v =
       (if v \<in> set (butlast (u # ns)) then (?p ! v)\<lparr>parent_id := INVALID_PARENT\<rparr> else ?p ! v)"
    using "1.prems" by (intro "1.IH") auto
  moreover have "c \<notin> set (butlast (u # ns))" using "1.prems" by (auto dest: in_set_butlastD)
  moreover have "c < length p" using "1.prems" by simp
  ultimately show ?case by (auto simp: nth_list_update)
qed simp_all

lemma chain_min_attained:
  "chain_min g ns m = m \<or> (\<exists>(u, c)\<in>set (chain_edges ns). chain_min g ns m = res g u c)"
proof (induction g ns m rule: chain_min.induct)
  case (1 g c u ns m)
  then show ?case by (auto split: if_splits)
qed simp_all

lemma chain_min_le_edges:
  "(u, c) \<in> set (chain_edges ns) \<Longrightarrow> chain_min g ns m \<le> res g u c"
proof (induction g ns m rule: chain_min.induct)
  case (1 g c' u' ns m)
  have "chain_min g (u' # ns) (if m > res g u' c' then res g u' c' else m)
      \<le> (if m > res g u' c' then res g u' c' else m)"
    by (rule chain_min_le)
  then show ?case using 1 by (auto split: if_splits)
qed simp_all

text \<open>
  C5, as the code behaves: in a round of the loop in which \<open>bfs\<close> returns true, on a
  graph with residual capacities in the range of \<open>int\<close>, the bottleneck \<open>d\<close> is the
  least of \<open>INT_MAX\<close> and the residual capacities of the edges of the parent chain
  from the target to the source; each edge (parent, child) of the chain loses exactly
  \<open>d\<close>; the opposite pair gains \<open>d\<close> in the arithmetic of \<open>int\<close>, which is exactly
  \<open>d\<close> when the sum is at most \<open>INT_MAX\<close>; the parent id of each child is reset to
  \<open>INVALID_PARENT\<close>; no other residual capacity and no other entry of the buffer
  changes.
\<close>

theorem augmentation_round:
  assumes "wf_graph g" "length path = NODE_COUNT"
    "ff_iteration g path = Some (Inr (Augmented g' path' d))"
  shows "\<exists>p ns. bfs g None None (Some path) =
         Inr \<lparr>reached = True, sPath = None, tPath = None, parents = Some p\<rparr> \<and>
     augmenting g p ns \<and>
     d \<le> INT_MAX \<and> (\<forall>(u, c)\<in>set (chain_edges ns). d \<le> res g u c) \<and>
     (d = INT_MAX \<or> (\<exists>(u, c)\<in>set (chain_edges ns). d = res g u c)) \<and>
     (\<forall>(u, c)\<in>set (chain_edges ns).
        res g' u c = res g u c - d \<and>
        res g' c u = int32 (res g c u + d) \<and>
        (res g c u + d \<le> INT_MAX \<longrightarrow> res g' c u = res g c u + d) \<and>
        parent_id (path' ! c) = INVALID_PARENT) \<and>
     (\<forall>a b. (a, b) \<notin> set (chain_edges ns) \<and> (b, a) \<notin> set (chain_edges ns) \<longrightarrow>
        res g' a b = res g a b) \<and>
     (\<forall>v. v \<notin> set (butlast ns) \<longrightarrow> path' ! v = p ! v)"
proof -
  have sq: "square g" using assms(1) by (simp add: wf_graph_def)
  from ff_iteration_cases [OF sq assms(2)] assms(3) obtain p ns where
    b: "bfs g None None (Some path) =
         Inr \<lparr>reached = True, sPath = None, tPath = None, parents = Some p\<rparr>"
    and len: "length p = NODE_COUNT"
    and aug: "augmenting g p ns"
    and eq: "g' = chain_aug g ns d" "path' = chain_reset p ns" "d = chain_min g ns INT_MAX"
    by (auto split: if_splits)
  have dist: "distinct ns" and rng: "\<forall>v\<in>set ns. v < NODE_COUNT"
    using aug by (simp_all add: augmenting_def)
  have rng': "\<forall>v\<in>set ns. v < length p" using rng len by simp
  have d: "0 < d" "d \<le> INT_MAX" unfolding eq(3) using augmenting_min [OF aug] by simp_all
  have le: "\<forall>(u, c)\<in>set (chain_edges ns). d \<le> res g u c"
    unfolding eq(3) by (auto intro: chain_min_le_edges)
  have att: "d = INT_MAX \<or> (\<exists>(u, c)\<in>set (chain_edges ns). d = res g u c)"
    unfolding eq(3) by (rule chain_min_attained)
  have edges: "res g' u c = res g u c - d \<and>
        res g' c u = int32 (res g c u + d) \<and>
        (res g c u + d \<le> INT_MAX \<longrightarrow> res g' c u = res g c u + d) \<and>
        parent_id (path' ! c) = INVALID_PARENT"
    if e: "(u, c) \<in> set (chain_edges ns)" for u c
  proof -
    have uc: "u < NODE_COUNT" "c < NODE_COUNT" using chain_edges_in [OF e] rng by auto
    have f: "pflow ns u c = 1" using e dist by (simp add: pflow_chain_edges)
    have r: "pflow ns c u = - 1" using f pflow_skew [OF dist, of c u] by simp
    have dle: "d \<le> res g u c" using le e by auto
    have b1: "res g u c \<le> INT_MAX" "INT_MIN \<le> res g c u"
      using assms(1) uc by (simp_all add: wf_graph_def)
    have "int32 (res g u c - d) = res g u c - d" using dle d b1 by (intro int32_id) simp_all
    then have 1: "res g' u c = res g u c - d"
      unfolding eq(1) using f by (simp add: res_augment [OF sq aug])
    have 2: "res g' c u = int32 (res g c u + d)"
      unfolding eq(1) using r by (simp add: res_augment [OF sq aug])
    have 3: "res g' c u = res g c u + d" if "res g c u + d \<le> INT_MAX"
      unfolding 2 using that d b1 by (intro int32_id) simp_all
    have "c \<in> set (butlast ns)" using e by (rule chain_edges_child)
    then have 4: "parent_id (path' ! c) = INVALID_PARENT"
      unfolding eq(2) by (simp add: chain_reset_nth [OF dist rng'])
    show ?thesis using 1 2 3 4 by blast
  qed
  have others: "res g' a b = res g a b"
    if "(a, b) \<notin> set (chain_edges ns) \<and> (b, a) \<notin> set (chain_edges ns)" for a b
    unfolding eq(1) using that dist by (simp add: res_augment [OF sq aug] pflow_chain_edges)
  have buf: "path' ! v = p ! v" if "v \<notin> set (butlast ns)" for v
    unfolding eq(2) using that by (simp add: chain_reset_nth [OF dist rng'])
  show ?thesis
    using b aug d(2) le att edges others buf by blast
qed

lemma main_first_round:
  "ff_iteration main_residual_graph initial_path = Some (Inr (Augmented (mk_graph
     [[(0, 0), (0, 4), (7, 7), (10, 10), (0, 0), (0, 0)],
      [(4, 0), (0, 0), (0, 0), (0, 0), (2, 2), (6, 10)],
      [(0, 0), (2, 2), (0, 0), (2, 2), (10, 10), (0, 0)],
      [(0, 0), (0, 0), (0, 0), (0, 0), (2, 2), (6, 6)],
      [(0, 0), (0, 0), (0, 0), (0, 0), (0, 0), (7, 7)],
      [(0, 0), (4, 0), (0, 0), (0, 0), (0, 0), (0, 0)]])
     [\<lparr>node_id = 0, parent_id = - 1\<rparr>, \<lparr>node_id = 1, parent_id = - 1\<rparr>,
      \<lparr>node_id = 2, parent_id = 0\<rparr>, \<lparr>node_id = 3, parent_id = 0\<rparr>,
      \<lparr>node_id = 4, parent_id = 1\<rparr>, \<lparr>node_id = 5, parent_id = - 1\<rparr>] 4))"
  by code_simp

theorem augmentation_round_witness:
  "wf_graph main_residual_graph \<and> length initial_path = NODE_COUNT \<and>
   (\<exists>g' path' d p ns. ff_iteration main_residual_graph initial_path = Some (Inr (Augmented g' path' d)) \<and>
      augmenting main_residual_graph p ns \<and> d \<le> INT_MAX \<and>
      (d = INT_MAX \<or> (\<exists>(u, c)\<in>set (chain_edges ns). d = res main_residual_graph u c)))"
proof -
  have l: "length initial_path = NODE_COUNT" by (simp add: initial_path_def)
  from augmentation_round [OF wf_main_residual_graph l main_first_round]
  show ?thesis using wf_main_residual_graph l main_first_round by blast
qed

text \<open>
  C5, as the specification states it, fails where the sum leaves the range of
  \<open>int\<close>: with a capacity of \<open>INT_MAX\<close> from the source to the target and the same
  back, the first round pushes \<open>INT_MAX\<close> and leaves a residual capacity of \<open>- 2\<close> on
  the pair from the target to the source.
\<close>

definition overflow_graph :: graph where
  "overflow_graph = mk_graph
     [[(0, 0), (0, 0), (0, 0), (0, 0), (0, 0), (INT_MAX, INT_MAX)],
      [(0, 0), (0, 0), (0, 0), (0, 0), (0, 0), (0, 0)],
      [(0, 0), (0, 0), (0, 0), (0, 0), (0, 0), (0, 0)],
      [(0, 0), (0, 0), (0, 0), (0, 0), (0, 0), (0, 0)],
      [(0, 0), (0, 0), (0, 0), (0, 0), (0, 0), (0, 0)],
      [(INT_MAX, INT_MAX), (0, 0), (0, 0), (0, 0), (0, 0), (0, 0)]]"

definition overflow_graph_after :: graph where
  "overflow_graph_after = mk_graph
     [[(0, 0), (0, 0), (0, 0), (0, 0), (0, 0), (0, INT_MAX)],
      [(0, 0), (0, 0), (0, 0), (0, 0), (0, 0), (0, 0)],
      [(0, 0), (0, 0), (0, 0), (0, 0), (0, 0), (0, 0)],
      [(0, 0), (0, 0), (0, 0), (0, 0), (0, 0), (0, 0)],
      [(0, 0), (0, 0), (0, 0), (0, 0), (0, 0), (0, 0)],
      [(- 2, INT_MAX), (0, 0), (0, 0), (0, 0), (0, 0), (0, 0)]]"

theorem reverse_residual_overflow:
  "ff_iteration overflow_graph initial_path =
     Some (Inr (Augmented overflow_graph_after initial_path INT_MAX)) \<and>
   res overflow_graph TARGET_NODE_ID SOURCE_NODE_ID = INT_MAX \<and>
   res overflow_graph_after TARGET_NODE_ID SOURCE_NODE_ID = - 2"
proof (intro conjI)
  show "ff_iteration overflow_graph initial_path =
     Some (Inr (Augmented overflow_graph_after initial_path INT_MAX))"
    by code_simp
  show "res overflow_graph TARGET_NODE_ID SOURCE_NODE_ID = INT_MAX"
    by (simp add: res_def overflow_graph_def mk_graph_def)
  show "res overflow_graph_after TARGET_NODE_ID SOURCE_NODE_ID = - 2"
    by (simp add: res_def overflow_graph_after_def mk_graph_def)
qed

section \<open>No validation\<close>

lemma setOriginalCapacity_square:
  assumes "square g" "u < NODE_COUNT" "v < NODE_COUNT"
  shows "\<exists>g'. setOriginalCapacity g (int u) (int v) c = Inr g' \<and> orig g' u v = c"
proof -
  let ?g = "g[u := (g ! u)[v := (g ! u ! v)\<lparr>original_capacity := c\<rparr>]]"
  have l: "length g = NODE_COUNT" "length (g ! u) = NODE_COUNT"
    using assms by (simp_all add: square_def)
  have "setOriginalCapacity g (int u) (int v) c = Inr ?g"
    using assms l by (simp add: setOriginalCapacity_def idx_int)
  moreover have "orig ?g u v = c" using assms l by (simp add: orig_def)
  ultimately show ?thesis by blast
qed

text \<open>
  C9, as the code behaves: nothing is validated. The two setters store any capacity, a
  negative one as well, at every pair of node ids below 6; and on every graph of six by
  six edges with residual capacities in the range of \<open>int\<close>, whatever their sign,
  \<open>fordFulkerson\<close> returns a flow value and writes the header and the eleven flow
  lines, with no diagnostic. The source and the target are the constants 0 and 5.
\<close>

theorem no_validation:
  assumes "wf_graph g"
  shows "(\<forall>u<NODE_COUNT. \<forall>v<NODE_COUNT. \<forall>c.
            setResidualCapacity g (int u) (int v) c = Inr (set_res g u v c) \<and>
            res (set_res g u v c) u v = c \<and>
            (\<exists>g'. setOriginalCapacity g (int u) (int v) c = Inr g' \<and> orig g' u v = c)) \<and>
     (\<exists>flow g' out. fordFulkerson g =
        Some (Inr (flow, g',
          Str ''Printing flows through all the edges that sum up to the maximum flow.\<newline>'' # out)) \<and>
        print_flows g' flow_lines = Inr out)"
proof
  have sq: "square g" using assms by (simp add: wf_graph_def)
  show "\<forall>u<NODE_COUNT. \<forall>v<NODE_COUNT. \<forall>c.
            setResidualCapacity g (int u) (int v) c = Inr (set_res g u v c) \<and>
            res (set_res g u v c) u v = c \<and>
            (\<exists>g'. setOriginalCapacity g (int u) (int v) c = Inr g' \<and> orig g' u v = c)"
  proof (intro allI impI)
    fix u v c assume "u < NODE_COUNT" "v < NODE_COUNT"
    then show "setResidualCapacity g (int u) (int v) c = Inr (set_res g u v c) \<and>
            res (set_res g u v c) u v = c \<and>
            (\<exists>g'. setOriginalCapacity g (int u) (int v) c = Inr g' \<and> orig g' u v = c)"
      using sq setOriginalCapacity_square [OF sq, of u v c]
      by (auto simp: setResidualCapacity_square res_set_res)
  qed
next
  from fordFulkerson_invariant [of "\<lambda>g p f. True" g] assms obtain flow g' out where
    r: "fordFulkerson g = Some (Inr (flow, g', out))" "wf_graph g'"
    by blast
  obtain out' where o: "print_flows g' flow_lines = Inr out'"
    using print_flows_square [of g'] r(2) by (auto simp: wf_graph_def)
  have "out = Str ''Printing flows through all the edges that sum up to the maximum flow.\<newline>'' # out'"
    using r(1) o
    by (auto simp: fordFulkerson_def ebind_Inr_iff split: option.splits sum.splits)
  then show "\<exists>flow g' out. fordFulkerson g =
        Some (Inr (flow, g',
          Str ''Printing flows through all the edges that sum up to the maximum flow.\<newline>'' # out)) \<and>
        print_flows g' flow_lines = Inr out"
    using r(1) o by blast
qed

definition negative_graph :: graph where
  "negative_graph = mk_graph
     [[(0, 0), (- 4, - 4), (7, 7), (10, 10), (0, 0), (0, 0)],
      [(0, 0), (0, 0), (0, 0), (0, 0), (2, 2), (10, 10)],
      [(0, 0), (2, 2), (0, 0), (2, 2), (10, 10), (0, 0)],
      [(0, 0), (0, 0), (0, 0), (0, 0), (2, 2), (6, 6)],
      [(0, 0), (0, 0), (0, 0), (0, 0), (0, 0), (7, 7)],
      [(0, 0), (0, 0), (0, 0), (0, 0), (0, 0), (0, 0)]]"

lemma wf_negative_graph: "wf_graph negative_graph"
  by (simp add: wf_graph_def square_def all_less_6 res_def negative_graph_def mk_graph_def)

theorem no_validation_witness:
  "wf_graph negative_graph \<and>
   (\<exists>flow g' out. fordFulkerson negative_graph = Some (Inr (flow, g', out)))"
  using no_validation [OF wf_negative_graph] wf_negative_graph by blast

text \<open>
  C9, as the specification states it, fails: with the capacity \<open>- 4\<close> from \<open>s\<close> to
  \<open>w\<close> in the graph of \<open>main\<close>, \<open>fordFulkerson\<close> returns the flow 15 and writes the
  flow lines and no diagnostic.
\<close>

theorem negative_capacity_not_rejected:
  "res negative_graph 0 1 = - 4 \<and> orig negative_graph 0 1 = - 4 \<and>
   fordFulkerson negative_graph = Some (Inr (15, mk_graph
     [[(0, 0), (- 4, - 4), (0, 7), (2, 10), (0, 0), (0, 0)],
      [(0, 0), (0, 0), (2, 0), (0, 0), (2, 2), (8, 10)],
      [(7, 0), (0, 2), (0, 0), (2, 2), (5, 10), (0, 0)],
      [(8, 0), (0, 0), (0, 0), (0, 0), (0, 2), (0, 6)],
      [(0, 0), (0, 0), (5, 0), (2, 0), (0, 0), (0, 7)],
      [(0, 0), (2, 0), (0, 0), (6, 0), (7, 0), (0, 0)]],
     [Str ''Printing flows through all the edges that sum up to the maximum flow.\<newline>'',
      Str ''Flow through s->w: '', Num 0, Str ''\<newline>'',
      Str ''Flow through s->x: '', Num 7, Str ''\<newline>'',
      Str ''Flow through s->z: '', Num 8, Str ''\<newline>'',
      Str ''Flow through w->y: '', Num 0, Str ''\<newline>'',
      Str ''Flow through w->t: '', Num 2, Str ''\<newline>'',
      Str ''Flow through x->w: '', Num 2, Str ''\<newline>'',
      Str ''Flow through x->z: '', Num 0, Str ''\<newline>'',
      Str ''Flow through x->y: '', Num 5, Str ''\<newline>'',
      Str ''Flow through z->y: '', Num 2, Str ''\<newline>'',
      Str ''Flow through z->t: '', Num 6, Str ''\<newline>'',
      Str ''Flow through y->w: '', Num 7, Str ''\<newline>'']))"
proof (intro conjI)
  show "res negative_graph 0 1 = - 4" "orig negative_graph 0 1 = - 4"
    by (simp_all add: res_def orig_def negative_graph_def mk_graph_def)
qed code_simp

section \<open>The run of the loop\<close>

text \<open>
  The states of the loop at its head: the graph, the parent buffer and \<open>max_flow\<close>
  before each call of \<open>bfs\<close>, from the state in which \<open>fordFulkerson\<close> enters it.
\<close>

inductive ff_run :: "graph \<Rightarrow> graph \<times> residualGraphNode list \<times> int \<Rightarrow> bool" for g0 where
  ff_run_start: "ff_run g0 (g0, initial_path, 0)"
| ff_run_round: "ff_run g0 (g, p, max_flow) \<Longrightarrow>
     ff_iteration g p = Some (Inr (Augmented g' p' d)) \<Longrightarrow>
     ff_run g0 (g', p', int32 (max_flow + d))"

lemma ff_iteration_Augmented:
  assumes "square g" "length p = NODE_COUNT" "ff_iteration g p = Some (Inr (Augmented g' p' d))"
  shows "\<exists>q ns. length q = NODE_COUNT \<and> augmenting g q ns \<and> g' = chain_aug g ns d \<and>
     p' = chain_reset q ns \<and> d = chain_min g ns INT_MAX"
  using ff_iteration_cases [OF assms(1,2)] assms(3) by (auto split: if_splits)

lemma fordFulkerson_run:
  assumes "wf_graph g"
  shows "\<exists>flow g' out p. fordFulkerson g = Some (Inr (flow, g', out)) \<and> wf_graph g' \<and>
     TARGET_NODE_ID \<notin> reachable g' \<and> ff_run g (g', p, flow)"
proof -
  have "\<exists>flow g' out p0. fordFulkerson g = Some (Inr (flow, g', out)) \<and> wf_graph g' \<and>
        TARGET_NODE_ID \<notin> reachable g' \<and> length p0 = NODE_COUNT \<and> ff_run g (g', p0, flow)"
  proof (rule fordFulkerson_invariant [where I = "\<lambda>g' p f. ff_run g (g', p, f)"])
    show "ff_run g (g, initial_path, 0)" by (rule ff_run_start)
    show "wf_graph g" by (rule assms)
  qed (rule ff_run_round)
  then show ?thesis by blast
qed

section \<open>Flows and cuts\<close>

text \<open>
  A flow network as \<open>main\<close> builds one: every residual capacity starts as the original
  capacity, which is not negative.
\<close>

definition fresh :: "graph \<Rightarrow> bool" where
  "fresh g \<longleftrightarrow> (\<forall>u<NODE_COUNT. \<forall>v<NODE_COUNT. res g u v = orig g u v \<and> 0 \<le> orig g u v)"

text \<open>The capacities of a pair of opposite edges add up within \<open>int\<close>.\<close>

definition pair_bounded :: "graph \<Rightarrow> bool" where
  "pair_bounded g \<longleftrightarrow> (\<forall>u<NODE_COUNT. \<forall>v<NODE_COUNT. orig g u v + orig g v u \<le> INT_MAX)"

text \<open>The capacities of the edges out of the source add up within \<open>int\<close>.\<close>

definition source_bounded :: "graph \<Rightarrow> bool" where
  "source_bounded g \<longleftrightarrow> (\<Sum>v<NODE_COUNT. orig g SOURCE_NODE_ID v) \<le> INT_MAX"

text \<open>The flow that leaves a node, net of the flow that enters it.\<close>

definition netout :: "graph \<Rightarrow> nat \<Rightarrow> int" where
  "netout g v = (\<Sum>w<NODE_COUNT. orig g v w - res g v w)"

definition flow_inv :: "graph \<Rightarrow> graph \<Rightarrow> bool" where
  "flow_inv g0 g \<longleftrightarrow> wf_graph g \<and>
     (\<forall>u<NODE_COUNT. \<forall>v<NODE_COUNT.
        orig g u v = orig g0 u v \<and> 0 \<le> orig g0 u v \<and> 0 \<le> res g u v \<and>
        res g u v + res g v u = orig g0 u v + orig g0 v u) \<and>
     (\<forall>v<NODE_COUNT. v \<noteq> SOURCE_NODE_ID \<and> v \<noteq> TARGET_NODE_ID \<longrightarrow> netout g v = 0) \<and>
     (\<forall>w<NODE_COUNT. res g SOURCE_NODE_ID w \<le> orig g0 SOURCE_NODE_ID w)"

lemma flow_inv_start:
  assumes "square g" "fresh g" "pair_bounded g"
  shows "flow_inv g g"
proof -
  have r: "res g u v = orig g u v" "0 \<le> orig g u v" "orig g u v + orig g v u \<le> INT_MAX"
    if "u < NODE_COUNT" "v < NODE_COUNT" for u v
    using assms(2,3) that by (simp_all add: fresh_def pair_bounded_def)
  have "INT_MIN \<le> res g u v \<and> res g u v \<le> INT_MAX" if "u < NODE_COUNT" "v < NODE_COUNT" for u v
    using r(1,2,3) [OF that] r(2) [OF that(2,1)] by simp
  then have wf: "wf_graph g" using assms(1) by (simp add: wf_graph_def)
  have "netout g v = 0" if "v < NODE_COUNT" for v
    unfolding netout_def using r(1) that by (intro sum.neutral) simp
  then show ?thesis using wf r by (simp add: flow_inv_def)
qed

lemma res_augment_exact:
  assumes pb: "pair_bounded g0" and inv: "flow_inv g0 g" and aug: "augmenting g p ns"
    and a: "a < NODE_COUNT" and b: "b < NODE_COUNT"
  defines "d \<equiv> chain_min g ns INT_MAX"
  shows "res (chain_aug g ns d) a b = res g a b - d * pflow ns a b"
    and "0 \<le> res (chain_aug g ns d) a b"
proof -
  have wf: "wf_graph g" using inv by (simp add: flow_inv_def)
  then have sq: "square g" by (simp add: wf_graph_def)
  have dist: "distinct ns" using aug by (simp add: augmenting_def)
  have d: "0 < d" "d \<le> INT_MAX" unfolding d_def using augmenting_min [OF aug] by simp_all
  have nn: "0 \<le> res g a b" "0 \<le> res g b a" using inv a b by (simp_all add: flow_inv_def)
  have rng: "res g a b \<le> INT_MAX" using wf a b by (simp add: wf_graph_def)
  have pair: "res g a b + res g b a \<le> INT_MAX"
    using inv pb a b by (simp add: flow_inv_def pair_bounded_def)
  have r: "pflow ns a b \<in> {- 1, 0, 1}" using dist by (rule pflow_range)
  have "res (chain_aug g ns d) a b = res g a b - d * pflow ns a b \<and> 0 \<le> res (chain_aug g ns d) a b"
  proof (cases "pflow ns a b = 1")
    case True
    have le: "d \<le> res g a b" unfolding d_def using True by (rule augmenting_min(3) [OF aug])
    have "int32 (res g a b - d) = res g a b - d" using le d rng by (intro int32_id) simp_all
    then show ?thesis using True le by (simp add: res_augment [OF sq aug])
  next
    case False
    show ?thesis
    proof (cases "pflow ns a b = - 1")
      case True
      then have "pflow ns b a = 1" using pflow_skew [OF dist, of b a] by simp
      then have le: "d \<le> res g b a" unfolding d_def by (rule augmenting_min(3) [OF aug])
      have "int32 (res g a b + d) = res g a b + d" using le d nn pair by (intro int32_id) simp_all
      then show ?thesis using True nn d by (simp add: res_augment [OF sq aug])
    next
      case F: False
      then have "pflow ns a b = 0" using r False by simp
      then show ?thesis using nn by (simp add: res_augment [OF sq aug])
    qed
  qed
  then show "res (chain_aug g ns d) a b = res g a b - d * pflow ns a b"
    and "0 \<le> res (chain_aug g ns d) a b" by simp_all
qed

lemma netout_augment:
  assumes pb: "pair_bounded g0" and inv: "flow_inv g0 g" and aug: "augmenting g p ns"
    and v: "v < NODE_COUNT"
  defines "d \<equiv> chain_min g ns INT_MAX"
  shows "netout (chain_aug g ns d) v =
     netout g v + d * ((if v = SOURCE_NODE_ID then 1 else 0) - (if v = TARGET_NODE_ID then 1 else 0))"
proof -
  have ns: "ns \<noteq> []" "hd ns = TARGET_NODE_ID" "chain_ok g p ns" "distinct ns"
    "\<forall>v\<in>set ns. v < NODE_COUNT"
    using aug by (simp_all add: augmenting_def)
  have "netout (chain_aug g ns d) v =
      (\<Sum>w<NODE_COUNT. (orig g v w - res g v w) + d * pflow ns v w)"
    unfolding netout_def d_def
    by (intro sum.cong refl) (simp add: orig_chain_aug res_augment_exact(1) [OF pb inv aug v])
  also have "\<dots> = netout g v + d * (\<Sum>w<NODE_COUNT. pflow ns v w)"
    by (simp add: sum.distrib sum_distrib_left netout_def)
  also have "(\<Sum>w<NODE_COUNT. pflow ns v w) =
      (if v = SOURCE_NODE_ID then 1 else 0) - (if v = TARGET_NODE_ID then 1 else 0)"
    using sum_pflow [OF ns(4,5,1), of v] chain_ok_last [OF ns(3)] ns(2) by simp
  finally show ?thesis .
qed

lemma flow_inv_augment:
  assumes pb: "pair_bounded g0" and inv: "flow_inv g0 g" and aug: "augmenting g p ns"
  defines "d \<equiv> chain_min g ns INT_MAX"
  shows "flow_inv g0 (chain_aug g ns d)"
proof -
  let ?g = "chain_aug g ns d"
  have wf: "wf_graph g" using inv by (simp add: flow_inv_def)
  have dist: "distinct ns" and ok: "chain_ok g p ns" using aug by (simp_all add: augmenting_def)
  have d: "0 < d" unfolding d_def using augmenting_min [OF aug] by simp
  have wf': "wf_graph ?g" using wf aug by (rule wf_graph_augment)
  have ex: "res ?g a b = res g a b - d * pflow ns a b" "0 \<le> res ?g a b"
    if "a < NODE_COUNT" "b < NODE_COUNT" for a b
    unfolding d_def using res_augment_exact [OF pb inv aug that] by simp_all
  have 1: "orig ?g u v = orig g0 u v \<and> 0 \<le> orig g0 u v \<and> 0 \<le> res ?g u v \<and>
        res ?g u v + res ?g v u = orig g0 u v + orig g0 v u"
    if "u < NODE_COUNT" "v < NODE_COUNT" for u v
  proof -
    have "res g u v + res g v u = orig g0 u v + orig g0 v u" "orig g u v = orig g0 u v"
      "0 \<le> orig g0 u v"
      using inv that by (simp_all add: flow_inv_def)
    moreover have "pflow ns v u = - pflow ns u v" using dist by (rule pflow_skew)
    ultimately show ?thesis
      using ex [OF that] ex [OF that(2,1)] by (simp add: orig_chain_aug algebra_simps)
  qed
  have 2: "netout ?g v = 0" if "v < NODE_COUNT" "v \<noteq> SOURCE_NODE_ID \<and> v \<noteq> TARGET_NODE_ID" for v
  proof -
    have "netout g v = 0" using inv that by (simp add: flow_inv_def)
    then show ?thesis
      unfolding d_def using netout_augment [OF pb inv aug that(1)] that(2) by simp
  qed
  have 3: "res ?g 0 w \<le> orig g0 0 w" if "w < NODE_COUNT" for w
  proof -
    have "pchain p ns" using ok by (rule chain_ok_pchain)
    then have "0 \<le> pflow ns 0 w" by (rule pflow_src_nonneg)
    then have "0 \<le> d * pflow ns 0 w" using d by simp
    moreover have "res g 0 w \<le> orig g0 0 w" using inv that by (simp add: flow_inv_def)
    ultimately show ?thesis using ex(1) [of 0 w] that by simp
  qed
  show ?thesis unfolding flow_inv_def using wf' 1 2 3 by blast
qed

lemma ff_run_flow_inv:
  assumes "square g0" "fresh g0" "pair_bounded g0" "ff_run g0 st"
  shows "flow_inv g0 (fst st) \<and> length (fst (snd st)) = NODE_COUNT"
  using assms(4)
proof (induction rule: ff_run.induct)
  case ff_run_start
  then show ?case using assms(1-3) by (simp add: flow_inv_start initial_path_def)
next
  case (ff_run_round g p max_flow g' p' d)
  then have inv: "flow_inv g0 g" and len: "length p = NODE_COUNT" by simp_all
  have sq: "square g" using inv by (simp add: flow_inv_def wf_graph_def)
  from ff_iteration_Augmented [OF sq len ff_run_round(2)] obtain q ns where
    q: "length q = NODE_COUNT" "augmenting g q ns" "g' = chain_aug g ns d"
      "p' = chain_reset q ns" "d = chain_min g ns INT_MAX"
    by blast
  have "flow_inv g0 g'" unfolding q(3,5) using assms(3) inv q(2) by (rule flow_inv_augment)
  then show ?case using q(1,4) by (simp add: length_chain_reset)
qed

lemma netout_source_bounds:
  assumes "flow_inv g0 g"
  shows "0 \<le> netout g SOURCE_NODE_ID"
    and "netout g SOURCE_NODE_ID \<le> (\<Sum>v<NODE_COUNT. orig g0 SOURCE_NODE_ID v)"
proof -
  have r: "orig g 0 w = orig g0 0 w" "0 \<le> res g 0 w" "res g 0 w \<le> orig g0 0 w"
    if "w < NODE_COUNT" for w
    using assms that by (simp_all add: flow_inv_def)
  show "0 \<le> netout g 0" unfolding netout_def using r by (intro sum_nonneg) simp
  show "netout g 0 \<le> (\<Sum>v<NODE_COUNT. orig g0 0 v)"
    unfolding netout_def using r by (intro sum_mono) simp
qed

lemma ff_run_flow:
  assumes "square g0" "fresh g0" "pair_bounded g0" "source_bounded g0" "ff_run g0 st"
  shows "snd (snd st) = netout (fst st) SOURCE_NODE_ID"
  using assms(5)
proof (induction rule: ff_run.induct)
  case ff_run_start
  have "netout g0 0 = 0"
    unfolding netout_def using assms(2) by (intro sum.neutral) (simp add: fresh_def)
  then show ?case by simp
next
  case (ff_run_round g p max_flow g' p' d)
  from ff_run_flow_inv [OF assms(1-3) ff_run_round(1)]
  have inv: "flow_inv g0 g" and len: "length p = NODE_COUNT" by simp_all
  have sq: "square g" using inv by (simp add: flow_inv_def wf_graph_def)
  from ff_iteration_Augmented [OF sq len ff_run_round(2)] obtain q ns where
    q: "augmenting g q ns" "g' = chain_aug g ns d" "d = chain_min g ns INT_MAX"
    by blast
  have inv': "flow_inv g0 g'" unfolding q(2,3) using assms(3) inv q(1) by (rule flow_inv_augment)
  have n: "netout g' 0 = netout g 0 + d"
    unfolding q(2) using netout_augment [OF assms(3) inv q(1), of 0] q(3) by simp
  have "0 \<le> netout g' 0" "netout g' 0 \<le> INT_MAX"
    using netout_source_bounds [OF inv'] assms(4) by (simp_all add: source_bounded_def)
  then have "int32 (netout g 0 + d) = netout g 0 + d"
    unfolding n by (intro int32_id) simp_all
  then show ?case using ff_run_round(3) n by simp
qed

section \<open>Cuts\<close>

text \<open>A flow on the six nodes, and its value: what leaves the source, net.\<close>

definition is_flow :: "graph \<Rightarrow> (nat \<Rightarrow> nat \<Rightarrow> int) \<Rightarrow> bool" where
  "is_flow g f \<longleftrightarrow>
     (\<forall>u<NODE_COUNT. \<forall>v<NODE_COUNT. 0 \<le> f u v \<and> f u v \<le> orig g u v) \<and>
     (\<forall>v<NODE_COUNT. v \<noteq> SOURCE_NODE_ID \<and> v \<noteq> TARGET_NODE_ID \<longrightarrow>
        (\<Sum>u<NODE_COUNT. f u v) = (\<Sum>w<NODE_COUNT. f v w))"

definition flow_value :: "(nat \<Rightarrow> nat \<Rightarrow> int) \<Rightarrow> int" where
  "flow_value f = (\<Sum>w<NODE_COUNT. f SOURCE_NODE_ID w) - (\<Sum>u<NODE_COUNT. f u SOURCE_NODE_ID)"

lemma sum_cut:
  fixes h :: "nat \<Rightarrow> nat \<Rightarrow> int"
  assumes "R \<subseteq> {..<NODE_COUNT}"
  shows "(\<Sum>u\<in>R. (\<Sum>w<NODE_COUNT. h u w) - (\<Sum>w<NODE_COUNT. h w u)) =
     (\<Sum>u\<in>R. \<Sum>w\<in>{..<NODE_COUNT} - R. h u w - h w u)"
proof -
  have fin: "finite R" using assms by (rule finite_subset) simp
  have split: "(\<Sum>w<NODE_COUNT. k w) = (\<Sum>w\<in>R. k w) + (\<Sum>w\<in>{..<NODE_COUNT} - R. k w)"
    for k :: "nat \<Rightarrow> int"
    using sum.subset_diff [OF assms, of k] by (simp add: add.commute)
  have "(\<Sum>u\<in>R. (\<Sum>w<NODE_COUNT. h u w) - (\<Sum>w<NODE_COUNT. h w u)) =
      (\<Sum>u\<in>R. \<Sum>w<NODE_COUNT. h u w - h w u)"
    by (simp add: sum_subtractf)
  also have "\<dots> = (\<Sum>u\<in>R. (\<Sum>w\<in>R. h u w - h w u) + (\<Sum>w\<in>{..<NODE_COUNT} - R. h u w - h w u))"
    by (intro sum.cong refl split)
  also have "\<dots> = (\<Sum>u\<in>R. \<Sum>w\<in>R. h u w - h w u) + (\<Sum>u\<in>R. \<Sum>w\<in>{..<NODE_COUNT} - R. h u w - h w u)"
    by (simp add: sum.distrib)
  also have "(\<Sum>u\<in>R. \<Sum>w\<in>R. h u w - h w u) = (\<Sum>u\<in>R. \<Sum>w\<in>R. h u w) - (\<Sum>u\<in>R. \<Sum>w\<in>R. h w u)"
    by (simp add: sum_subtractf)
  also have "(\<Sum>u\<in>R. \<Sum>w\<in>R. h w u) = (\<Sum>u\<in>R. \<Sum>w\<in>R. h u w)"
    by (rule sum.swap)
  finally show ?thesis by simp
qed

lemma flow_value_cut:
  assumes R: "R \<subseteq> {..<NODE_COUNT}" "SOURCE_NODE_ID \<in> R" "TARGET_NODE_ID \<notin> R"
    and cons: "\<forall>v<NODE_COUNT. v \<noteq> SOURCE_NODE_ID \<and> v \<noteq> TARGET_NODE_ID \<longrightarrow>
        (\<Sum>u<NODE_COUNT. f u v) = (\<Sum>w<NODE_COUNT. f v w)"
  shows "flow_value f = (\<Sum>u\<in>R. \<Sum>w\<in>{..<NODE_COUNT} - R. f u w - f w u)"
proof -
  have fin: "finite R" using R(1) by (rule finite_subset) simp
  let ?e = "\<lambda>u. (\<Sum>w<NODE_COUNT. f u w) - (\<Sum>w<NODE_COUNT. f w u)"
  have z: "?e u = 0" if "u \<in> R - {0}" for u
  proof -
    have "u < NODE_COUNT" "u \<noteq> 0 \<and> u \<noteq> 5" using that R by auto
    then show ?thesis using cons by simp
  qed
  have "(\<Sum>u\<in>R. ?e u) = ?e 0 + (\<Sum>u\<in>R - {0}. ?e u)"
    using fin R(2) by (rule sum.remove)
  also have "(\<Sum>u\<in>R - {0}. ?e u) = 0" using z by (intro sum.neutral) blast
  finally have "flow_value f = (\<Sum>u\<in>R. ?e u)" by (simp add: flow_value_def)
  then show ?thesis using sum_cut [OF R(1), of f] by simp
qed

text \<open>The flow on each edge that the residual capacities stand for.\<close>

definition flow_of :: "graph \<Rightarrow> nat \<Rightarrow> nat \<Rightarrow> int" where
  "flow_of g u v = max 0 (orig g u v - res g u v)"

lemma flow_of_diff:
  assumes "flow_inv g0 g" "u < NODE_COUNT" "v < NODE_COUNT"
  shows "flow_of g u v - flow_of g v u = orig g u v - res g u v"
proof -
  have "res g u v + res g v u = orig g u v + orig g v u"
    using assms by (simp add: flow_inv_def)
  then show ?thesis by (simp add: flow_of_def max_def)
qed

lemma is_flow_flow_of:
  assumes "flow_inv g0 g"
  shows "is_flow g0 (flow_of g)" and "flow_value (flow_of g) = netout g SOURCE_NODE_ID"
proof -
  have d: "(\<Sum>w<NODE_COUNT. flow_of g v w) - (\<Sum>u<NODE_COUNT. flow_of g u v) = netout g v"
    if "v < NODE_COUNT" for v
  proof -
    have "(\<Sum>w<NODE_COUNT. flow_of g v w) - (\<Sum>u<NODE_COUNT. flow_of g u v) =
        (\<Sum>w<NODE_COUNT. flow_of g v w - flow_of g w v)"
      by (simp add: sum_subtractf)
    also have "\<dots> = (\<Sum>w<NODE_COUNT. orig g v w - res g v w)"
      using that by (intro sum.cong refl flow_of_diff [OF assms]) simp_all
    finally show ?thesis by (simp add: netout_def)
  qed
  show "flow_value (flow_of g) = netout g 0" using d [of 0] by (simp add: flow_value_def)
  have cap: "0 \<le> flow_of g u v \<and> flow_of g u v \<le> orig g0 u v"
    if "u < NODE_COUNT" "v < NODE_COUNT" for u v
  proof -
    have "orig g u v = orig g0 u v" "0 \<le> res g u v" "0 \<le> orig g0 u v"
      using assms that by (simp_all add: flow_inv_def)
    then show ?thesis by (simp add: flow_of_def)
  qed
  have cons: "(\<Sum>u<NODE_COUNT. flow_of g u v) = (\<Sum>w<NODE_COUNT. flow_of g v w)"
    if "v < NODE_COUNT" "v \<noteq> 0 \<and> v \<noteq> 5" for v
  proof -
    have "netout g v = 0" using assms that by (simp add: flow_inv_def)
    then show ?thesis using d [OF that(1)] by simp
  qed
  show "is_flow g0 (flow_of g)" unfolding is_flow_def using cap cons by blast
qed

lemma reachable_source: "SOURCE_NODE_ID \<in> reachable g"
  by (simp add: reachable_def)

lemma reachable_closed:
  "u \<in> reachable g \<Longrightarrow> w < NODE_COUNT \<Longrightarrow> 0 < res g u w \<Longrightarrow> w \<in> reachable g"
proof -
  assume u: "u \<in> reachable g" and w: "w < NODE_COUNT" "0 < res g u w"
  have "(u, w) \<in> pos_edges g" using reachable_less [OF u] w by (simp add: pos_edges_def)
  then show ?thesis using u by (auto simp: reachable_def intro: rtrancl_into_rtrancl)
qed

text \<open>The capacity of the cut between the nodes of \<open>R\<close> and the others.\<close>

definition cut_value :: "graph \<Rightarrow> nat set \<Rightarrow> int" where
  "cut_value g R = (\<Sum>u\<in>R. \<Sum>w\<in>{..<NODE_COUNT} - R. orig g u w)"

lemma weak_duality:
  assumes "is_flow g f" "R \<subseteq> {..<NODE_COUNT}" "SOURCE_NODE_ID \<in> R" "TARGET_NODE_ID \<notin> R"
  shows "flow_value f \<le> cut_value g R"
proof -
  have "flow_value f = (\<Sum>u\<in>R. \<Sum>w\<in>{..<NODE_COUNT} - R. f u w - f w u)"
    using assms by (intro flow_value_cut) (simp_all add: is_flow_def)
  also have "\<dots> \<le> (\<Sum>u\<in>R. \<Sum>w\<in>{..<NODE_COUNT} - R. orig g u w)"
  proof (intro sum_mono)
    fix u w assume "u \<in> R" "w \<in> {..<NODE_COUNT} - R"
    then have "u < NODE_COUNT" "w < NODE_COUNT" using assms(2) by auto
    then have "f u w \<le> orig g u w" "0 \<le> f w u" using assms(1) by (simp_all add: is_flow_def)
    then show "f u w - f w u \<le> orig g u w" by simp
  qed
  finally show ?thesis by (simp add: cut_value_def)
qed

lemma saturated_cut:
  assumes inv: "flow_inv g0 g" and sat: "TARGET_NODE_ID \<notin> reachable g"
  shows "netout g SOURCE_NODE_ID = cut_value g0 (reachable g)"
proof -
  let ?R = "reachable g"
  have R: "?R \<subseteq> {..<NODE_COUNT}" using reachable_less by auto
  have fl: "is_flow g0 (flow_of g)" "flow_value (flow_of g) = netout g 0"
    using is_flow_flow_of [OF inv] by simp_all
  have "flow_value (flow_of g) = (\<Sum>u\<in>?R. \<Sum>w\<in>{..<NODE_COUNT} - ?R. flow_of g u w - flow_of g w u)"
    using R reachable_source sat fl(1) by (intro flow_value_cut) (simp_all add: is_flow_def)
  also have "\<dots> = (\<Sum>u\<in>?R. \<Sum>w\<in>{..<NODE_COUNT} - ?R. orig g0 u w)"
  proof (intro sum.cong refl)
    fix u w assume u: "u \<in> ?R" and w: "w \<in> {..<NODE_COUNT} - ?R"
    have u6: "u < NODE_COUNT" and w6: "w < NODE_COUNT" using u w reachable_less by auto
    have "\<not> 0 < res g u w" using reachable_closed [OF u w6] w by auto
    moreover have "0 \<le> res g u w" "orig g u w = orig g0 u w"
      using inv u6 w6 by (simp_all add: flow_inv_def)
    ultimately have "orig g u w - res g u w = orig g0 u w" by simp
    then show "flow_of g u w - flow_of g w u = orig g0 u w"
      using flow_of_diff [OF inv u6 w6] by simp
  qed
  finally show ?thesis using fl(2) by (simp add: cut_value_def)
qed

lemma cut_capacity_cut_value:
  assumes "R \<subseteq> {..<NODE_COUNT}"
  shows "cut_capacity g (filter (\<lambda>v. v \<in> R) [0..<NODE_COUNT])
     (filter (\<lambda>v. v \<notin> R) [0..<NODE_COUNT]) = cut_value g R"
proof -
  have s: "set (filter (\<lambda>v. v \<in> R) [0..<NODE_COUNT]) = R" using assms by auto
  have t: "set (filter (\<lambda>v. v \<notin> R) [0..<NODE_COUNT]) = {..<NODE_COUNT} - R" by auto
  have "cut_capacity g (filter (\<lambda>v. v \<in> R) [0..<NODE_COUNT])
     (filter (\<lambda>v. v \<notin> R) [0..<NODE_COUNT]) =
     (\<Sum>u\<in>set (filter (\<lambda>v. v \<in> R) [0..<NODE_COUNT]).
        \<Sum>w\<in>set (filter (\<lambda>v. v \<notin> R) [0..<NODE_COUNT]). orig g u w)"
    unfolding cut_capacity_def
    by (simp only: sum_list_distinct_conv_sum_set distinct_filter distinct_upt)
  then show ?thesis unfolding s t by (simp add: cut_value_def)
qed

lemma sum_less_6:
  fixes f :: "nat \<Rightarrow> int"
  shows "(\<Sum>v<NODE_COUNT. f v) = f 0 + f 1 + f 2 + f 3 + f 4 + f 5"
proof -
  have "{..<6::nat} = {0, 1, 2, 3, 4, 5}" by auto
  then show ?thesis by simp
qed

lemma fresh_main_residual_graph: "fresh main_residual_graph"
  by (simp add: fresh_def all_less_6 res_def orig_def main_residual_graph_eq mk_graph_def)

lemma pair_bounded_main_residual_graph: "pair_bounded main_residual_graph"
  by (simp add: pair_bounded_def all_less_6 orig_def main_residual_graph_eq mk_graph_def)

lemma source_bounded_main_residual_graph: "source_bounded main_residual_graph"
  by (simp add: source_bounded_def sum_less_6 orig_def main_residual_graph_eq mk_graph_def)

section \<open>Maximum flow and minimum cut\<close>

text \<open>
  C2, as the code behaves: on a graph of six by six edges whose residual capacities
  start as the original capacities, none negative, where the capacities of each pair
  of opposite edges and the capacities of the edges out of the source add up to at most
  \<open>INT_MAX\<close>, \<open>fordFulkerson\<close> returns the value of a flow that no flow exceeds; \<open>bfs\<close>
  on the graph it leaves does not reach the target, and the original capacities of
  the edges from the source side to the target side of its partition add up to the
  value returned.
\<close>

theorem max_flow_min_cut:
  assumes "square g" "fresh g" "pair_bounded g" "source_bounded g"
  shows "\<exists>flow g' out b S T. fordFulkerson g = Some (Inr (flow, g', out)) \<and>
     (\<exists>f. is_flow g f \<and> flow_value f = flow) \<and>
     (\<forall>f. is_flow g f \<longrightarrow> flow_value f \<le> flow) \<and>
     bfs g' (Some []) (Some []) None = Inr b \<and> \<not> reached b \<and>
     sPath b = Some S \<and> tPath b = Some T \<and>
     SOURCE_NODE_ID \<in> set S \<and> TARGET_NODE_ID \<in> set T \<and>
     (\<forall>u<NODE_COUNT. \<forall>v<NODE_COUNT. orig g' u v = orig g u v) \<and>
     flow = cut_capacity g' S T"
proof -
  have inv0: "flow_inv g g" using assms(1-3) by (rule flow_inv_start)
  then have wf: "wf_graph g" by (simp add: flow_inv_def)
  from fordFulkerson_run [OF wf] obtain flow g' out p where
    r: "fordFulkerson g = Some (Inr (flow, g', out))" "wf_graph g'"
      "TARGET_NODE_ID \<notin> reachable g'" "ff_run g (g', p, flow)"
    by blast
  have inv: "flow_inv g g'" using ff_run_flow_inv [OF assms(1-3) r(4)] by simp
  have fl: "flow = netout g' 0" using ff_run_flow [OF assms r(4)] by simp
  let ?R = "reachable g'"
  let ?S = "filter (\<lambda>v. v \<in> ?R) [0..<NODE_COUNT]"
  let ?T = "filter (\<lambda>v. v \<notin> ?R) [0..<NODE_COUNT]"
  have R: "?R \<subseteq> {..<NODE_COUNT}" using reachable_less by auto
  have sq': "square g'" using r(2) by (simp add: wf_graph_def)
  have "buffer_ok None" by (simp add: buffer_ok_def)
  from bfs_correct [OF sq' this, of "Some []" "Some []"] obtain b where
    b: "bfs g' (Some []) (Some []) None = Inr b" "reached b = (TARGET_NODE_ID \<in> ?R)"
      "(sPath b, tPath b) = partition_of g' (Some []) (Some [])"
    by blast
  have st: "sPath b = Some ?S" "tPath b = Some ?T" using b(3) by (simp_all add: partition_of_def)
  have o: "\<forall>u<NODE_COUNT. \<forall>v<NODE_COUNT. orig g' u v = orig g u v"
    using inv by (simp add: flow_inv_def)
  have cv: "cut_value g' ?R = cut_value g ?R"
    unfolding cut_value_def using o R by (intro sum.cong refl) auto
  have cut: "flow = cut_capacity g' ?S ?T"
    unfolding fl cut_capacity_cut_value [OF R] cv using inv r(3) by (rule saturated_cut)
  have ex: "\<exists>f. is_flow g f \<and> flow_value f = flow"
    using is_flow_flow_of [OF inv] fl by blast
  have mx: "\<forall>f. is_flow g f \<longrightarrow> flow_value f \<le> flow"
  proof (intro allI impI)
    fix f assume "is_flow g f"
    then have "flow_value f \<le> cut_value g ?R"
      using R reachable_source r(3) by (rule weak_duality)
    then show "flow_value f \<le> flow"
      unfolding fl saturated_cut [OF inv r(3)] .
  qed
  have s0: "SOURCE_NODE_ID \<in> set ?S" using reachable_source by simp
  have t5: "TARGET_NODE_ID \<in> set ?T" using r(3) by simp
  show ?thesis
    using r(1) ex mx b(1,2) r(3) st s0 t5 o cut by blast
qed

theorem max_flow_min_cut_witness:
  "square main_residual_graph \<and> fresh main_residual_graph \<and>
   pair_bounded main_residual_graph \<and> source_bounded main_residual_graph \<and>
   (\<exists>flow g' out f. fordFulkerson main_residual_graph = Some (Inr (flow, g', out)) \<and>
      is_flow main_residual_graph f \<and> flow_value f = flow)"
proof -
  from max_flow_min_cut [OF square_main_residual_graph fresh_main_residual_graph
    pair_bounded_main_residual_graph source_bounded_main_residual_graph]
  have "\<exists>flow g' out f. fordFulkerson main_residual_graph = Some (Inr (flow, g', out)) \<and>
      is_flow main_residual_graph f \<and> flow_value f = flow"
    by blast
  then show ?thesis
    using square_main_residual_graph fresh_main_residual_graph
      pair_bounded_main_residual_graph source_bounded_main_residual_graph by blast
qed

text \<open>
  C2, as the specification states it, fails where \<open>max_flow\<close> leaves the range of
  \<open>int\<close>: with the capacities \<open>INT_MAX\<close> from \<open>s\<close> to \<open>t\<close> and 1 from \<open>s\<close> to \<open>w\<close> and
  from \<open>w\<close> to \<open>t\<close>, the value returned is \<open>INT_MIN\<close>, and the capacity of the cut
  that \<open>bfs\<close> finds on the graph left is \<open>INT_MAX + 1\<close>.
\<close>

definition big_graph :: graph where
  "big_graph = mk_graph
     [[(0, 0), (1, 1), (0, 0), (0, 0), (0, 0), (INT_MAX, INT_MAX)],
      [(0, 0), (0, 0), (0, 0), (0, 0), (0, 0), (1, 1)],
      [(0, 0), (0, 0), (0, 0), (0, 0), (0, 0), (0, 0)],
      [(0, 0), (0, 0), (0, 0), (0, 0), (0, 0), (0, 0)],
      [(0, 0), (0, 0), (0, 0), (0, 0), (0, 0), (0, 0)],
      [(0, 0), (0, 0), (0, 0), (0, 0), (0, 0), (0, 0)]]"

definition big_graph_after :: graph where
  "big_graph_after = mk_graph
     [[(0, 0), (0, 1), (0, 0), (0, 0), (0, 0), (0, INT_MAX)],
      [(1, 0), (0, 0), (0, 0), (0, 0), (0, 0), (0, 1)],
      [(0, 0), (0, 0), (0, 0), (0, 0), (0, 0), (0, 0)],
      [(0, 0), (0, 0), (0, 0), (0, 0), (0, 0), (0, 0)],
      [(0, 0), (0, 0), (0, 0), (0, 0), (0, 0), (0, 0)],
      [(INT_MAX, 0), (1, 0), (0, 0), (0, 0), (0, 0), (0, 0)]]"

theorem max_flow_overflow:
  "fordFulkerson big_graph = Some (Inr (INT_MIN, big_graph_after,
     [Str ''Printing flows through all the edges that sum up to the maximum flow.\<newline>'',
      Str ''Flow through s->w: '', Num 1, Str ''\<newline>'',
      Str ''Flow through s->x: '', Num 0, Str ''\<newline>'',
      Str ''Flow through s->z: '', Num 0, Str ''\<newline>'',
      Str ''Flow through w->y: '', Num 0, Str ''\<newline>'',
      Str ''Flow through w->t: '', Num 1, Str ''\<newline>'',
      Str ''Flow through x->w: '', Num 0, Str ''\<newline>'',
      Str ''Flow through x->z: '', Num 0, Str ''\<newline>'',
      Str ''Flow through x->y: '', Num 0, Str ''\<newline>'',
      Str ''Flow through z->y: '', Num 0, Str ''\<newline>'',
      Str ''Flow through z->t: '', Num 0, Str ''\<newline>'',
      Str ''Flow through y->w: '', Num 0, Str ''\<newline>''])) \<and>
   bfs big_graph_after (Some []) (Some []) None =
     Inr \<lparr>reached = False, sPath = Some [0], tPath = Some [1, 2, 3, 4, 5], parents = None\<rparr> \<and>
   cut_capacity big_graph_after [0] [1, 2, 3, 4, 5] = 2147483648"
  by (intro conjI) code_simp+

section \<open>The flow on each edge\<close>

text \<open>
  The flow that \<open>fordFulkerson\<close> prints for an edge: the original capacity minus the
  residual capacity, in the arithmetic of \<open>int\<close>.
\<close>

definition edgeFlow :: "graph \<Rightarrow> nat \<Rightarrow> nat \<Rightarrow> int" where
  "edgeFlow g u v = int32 (orig g u v - res g u v)"

lemma edge_flow_edgeFlow:
  "square g \<Longrightarrow> u < NODE_COUNT \<Longrightarrow> v < NODE_COUNT \<Longrightarrow>
     edge_flow g (int u) (int v) = Inr (edgeFlow g u v)"
  by (simp add: edge_flow_square edgeFlow_def)

text \<open>
  C6, as the code behaves: on a graph of six by six edges whose residual capacities
  start as the original capacities, none negative, where the capacities of each pair
  of opposite edges add up to at most \<open>INT_MAX\<close>, in every state of the loop and in
  the state that \<open>fordFulkerson\<close> returns, every residual capacity is at least 0 and at
  most the original capacity of the edge plus that of the opposite edge; and the flow
  of an edge whose opposite edge has no original capacity is the original capacity
  minus the residual capacity, between 0 and the original capacity.
\<close>

theorem capacity_respected:
  assumes "square g" "fresh g" "pair_bounded g"
  shows "(\<exists>flow g' out p. fordFulkerson g = Some (Inr (flow, g', out)) \<and> ff_run g (g', p, flow)) \<and>
     (\<forall>g' p max_flow. ff_run g (g', p, max_flow) \<longrightarrow>
        (\<forall>u<NODE_COUNT. \<forall>v<NODE_COUNT.
           orig g' u v = orig g u v \<and> 0 \<le> res g' u v \<and>
           res g' u v \<le> orig g u v + orig g v u \<and>
           edge_flow g' (int u) (int v) = Inr (edgeFlow g' u v) \<and>
           (orig g v u = 0 \<longrightarrow>
              edgeFlow g' u v = orig g u v - res g' u v \<and>
              0 \<le> edgeFlow g' u v \<and> edgeFlow g' u v \<le> orig g u v)))"
proof
  have "flow_inv g g" using assms by (rule flow_inv_start)
  then have "wf_graph g" by (simp add: flow_inv_def)
  from fordFulkerson_run [OF this]
  show "\<exists>flow g' out p. fordFulkerson g = Some (Inr (flow, g', out)) \<and> ff_run g (g', p, flow)"
    by blast
next
  show "\<forall>g' p max_flow. ff_run g (g', p, max_flow) \<longrightarrow>
        (\<forall>u<NODE_COUNT. \<forall>v<NODE_COUNT.
           orig g' u v = orig g u v \<and> 0 \<le> res g' u v \<and>
           res g' u v \<le> orig g u v + orig g v u \<and>
           edge_flow g' (int u) (int v) = Inr (edgeFlow g' u v) \<and>
           (orig g v u = 0 \<longrightarrow>
              edgeFlow g' u v = orig g u v - res g' u v \<and>
              0 \<le> edgeFlow g' u v \<and> edgeFlow g' u v \<le> orig g u v))"
  proof (intro allI impI)
    fix g' p max_flow u v
    assume run: "ff_run g (g', p, max_flow)" and u: "u < NODE_COUNT" and v: "v < NODE_COUNT"
    have inv: "flow_inv g g'" using ff_run_flow_inv [OF assms run] by simp
    then have sq: "square g'" by (simp add: flow_inv_def wf_graph_def)
    have f: "orig g' u v = orig g u v" "0 \<le> res g' u v" "0 \<le> res g' v u"
      "res g' u v + res g' v u = orig g u v + orig g v u"
      using inv u v by (simp_all add: flow_inv_def)
    have b: "orig g u v + orig g v u \<le> INT_MAX" "0 \<le> orig g v u"
      using assms(2,3) u v by (simp_all add: pair_bounded_def fresh_def)
    have e: "edgeFlow g' u v = orig g u v - res g' u v \<and>
              0 \<le> edgeFlow g' u v \<and> edgeFlow g' u v \<le> orig g u v"
      if "orig g v u = 0"
    proof -
      have "int32 (orig g' u v - res g' u v) = orig g' u v - res g' u v"
        using f b that by (intro int32_id) simp_all
      then show ?thesis using f that by (simp add: edgeFlow_def)
    qed
    show "orig g' u v = orig g u v \<and> 0 \<le> res g' u v \<and>
           res g' u v \<le> orig g u v + orig g v u \<and>
           edge_flow g' (int u) (int v) = Inr (edgeFlow g' u v) \<and>
           (orig g v u = 0 \<longrightarrow>
              edgeFlow g' u v = orig g u v - res g' u v \<and>
              0 \<le> edgeFlow g' u v \<and> edgeFlow g' u v \<le> orig g u v)"
      using f e edge_flow_edgeFlow [OF sq u v] by simp
  qed
qed

theorem capacity_respected_witness:
  "square main_residual_graph \<and> fresh main_residual_graph \<and> pair_bounded main_residual_graph \<and>
   (\<exists>flow g' out p. fordFulkerson main_residual_graph = Some (Inr (flow, g', out)) \<and>
      ff_run main_residual_graph (g', p, flow) \<and> 0 \<le> edgeFlow g' 0 1 \<and>
      edgeFlow g' 0 1 \<le> orig main_residual_graph 0 1)"
proof -
  have z: "orig main_residual_graph 1 0 = 0"
    by (simp add: orig_def main_residual_graph_eq mk_graph_def)
  from capacity_respected [OF square_main_residual_graph fresh_main_residual_graph
    pair_bounded_main_residual_graph]
  obtain flow g' out p where
    r: "fordFulkerson main_residual_graph = Some (Inr (flow, g', out))"
      "ff_run main_residual_graph (g', p, flow)"
    and a: "\<forall>g' p max_flow. ff_run main_residual_graph (g', p, max_flow) \<longrightarrow>
        (\<forall>u<NODE_COUNT. \<forall>v<NODE_COUNT.
           orig g' u v = orig main_residual_graph u v \<and> 0 \<le> res g' u v \<and>
           res g' u v \<le> orig main_residual_graph u v + orig main_residual_graph v u \<and>
           edge_flow g' (int u) (int v) = Inr (edgeFlow g' u v) \<and>
           (orig main_residual_graph v u = 0 \<longrightarrow>
              edgeFlow g' u v = orig main_residual_graph u v - res g' u v \<and>
              0 \<le> edgeFlow g' u v \<and> edgeFlow g' u v \<le> orig main_residual_graph u v))"
    by blast
  have "0 \<le> edgeFlow g' 0 1 \<and> edgeFlow g' 0 1 \<le> orig main_residual_graph 0 1"
    using a [rule_format, OF r(2), of 0 1] z by simp
  then show ?thesis
    using r square_main_residual_graph fresh_main_residual_graph
      pair_bounded_main_residual_graph by blast
qed

text \<open>
  Two edges in opposite directions between \<open>w\<close> and \<open>x\<close>: 3 from \<open>w\<close> to \<open>x\<close> and 5
  from \<open>x\<close> to \<open>w\<close>, on the path \<open>s\<close>, \<open>w\<close>, \<open>x\<close>, \<open>t\<close> of capacity 3.
\<close>

definition anti_graph :: graph where
  "anti_graph = mk_graph
     [[(0, 0), (3, 3), (0, 0), (0, 0), (0, 0), (0, 0)],
      [(0, 0), (0, 0), (3, 3), (0, 0), (0, 0), (0, 0)],
      [(0, 0), (5, 5), (0, 0), (0, 0), (0, 0), (3, 3)],
      [(0, 0), (0, 0), (0, 0), (0, 0), (0, 0), (0, 0)],
      [(0, 0), (0, 0), (0, 0), (0, 0), (0, 0), (0, 0)],
      [(0, 0), (0, 0), (0, 0), (0, 0), (0, 0), (0, 0)]]"

definition anti_graph_after :: graph where
  "anti_graph_after = mk_graph
     [[(0, 0), (0, 3), (0, 0), (0, 0), (0, 0), (0, 0)],
      [(3, 0), (0, 0), (0, 3), (0, 0), (0, 0), (0, 0)],
      [(0, 0), (8, 5), (0, 0), (0, 0), (0, 0), (0, 3)],
      [(0, 0), (0, 0), (0, 0), (0, 0), (0, 0), (0, 0)],
      [(0, 0), (0, 0), (0, 0), (0, 0), (0, 0), (0, 0)],
      [(0, 0), (0, 0), (3, 0), (0, 0), (0, 0), (0, 0)]]"

definition anti_output :: "cout_item list" where
  "anti_output =
     [Str ''Printing flows through all the edges that sum up to the maximum flow.\<newline>'',
      Str ''Flow through s->w: '', Num 3, Str ''\<newline>'',
      Str ''Flow through s->x: '', Num 0, Str ''\<newline>'',
      Str ''Flow through s->z: '', Num 0, Str ''\<newline>'',
      Str ''Flow through w->y: '', Num 0, Str ''\<newline>'',
      Str ''Flow through w->t: '', Num 0, Str ''\<newline>'',
      Str ''Flow through x->w: '', Num (- 3), Str ''\<newline>'',
      Str ''Flow through x->z: '', Num 0, Str ''\<newline>'',
      Str ''Flow through x->y: '', Num 0, Str ''\<newline>'',
      Str ''Flow through z->y: '', Num 0, Str ''\<newline>'',
      Str ''Flow through z->t: '', Num 0, Str ''\<newline>'',
      Str ''Flow through y->w: '', Num 0, Str ''\<newline>'']"

lemma anti_fordFulkerson:
  "fordFulkerson anti_graph = Some (Inr (3, anti_graph_after, anti_output))"
  by code_simp

text \<open>
  C6, as the specification states it, fails on an edge with an opposite edge: the edge
  from \<open>x\<close> to \<open>w\<close>, of capacity 5, ends with the residual capacity 8, and the flow
  printed for it is \<open>- 3\<close>.
\<close>

theorem opposite_edge_flow_negative:
  "fordFulkerson anti_graph = Some (Inr (3, anti_graph_after, anti_output)) \<and>
   orig anti_graph 2 1 = 5 \<and> res anti_graph_after 2 1 = 8 \<and>
   edge_flow anti_graph_after 2 1 = Inr (- 3)"
proof (intro conjI)
  show "fordFulkerson anti_graph = Some (Inr (3, anti_graph_after, anti_output))"
    by (rule anti_fordFulkerson)
  show "orig anti_graph 2 1 = 5" by (simp add: orig_def anti_graph_def mk_graph_def)
  show "res anti_graph_after 2 1 = 8" by (simp add: res_def anti_graph_after_def mk_graph_def)
  show "edge_flow anti_graph_after 2 1 = Inr (- 3)" by code_simp
qed

section \<open>Conservation\<close>

text \<open>No edge of positive capacity has an opposite edge of positive capacity.\<close>

definition no_antiparallel :: "graph \<Rightarrow> bool" where
  "no_antiparallel g \<longleftrightarrow>
     (\<forall>u<NODE_COUNT. \<forall>v<NODE_COUNT. 0 < orig g u v \<longrightarrow> orig g v u = 0)"

text \<open>
  The flow into a node and out of it, over the edges of the input: the pairs with a
  positive original capacity.
\<close>

definition in_flow :: "graph \<Rightarrow> nat \<Rightarrow> int" where
  "in_flow g v = (\<Sum>u\<in>{u \<in> {..<NODE_COUNT}. 0 < orig g u v}. edgeFlow g u v)"

definition out_flow :: "graph \<Rightarrow> nat \<Rightarrow> int" where
  "out_flow g v = (\<Sum>w\<in>{w \<in> {..<NODE_COUNT}. 0 < orig g v w}. edgeFlow g v w)"

lemma in_flow_eq:
  "in_flow g v = (\<Sum>u<NODE_COUNT. if 0 < orig g u v then edgeFlow g u v else 0)"
  unfolding in_flow_def by (rule sum.inter_filter) simp

lemma out_flow_eq:
  "out_flow g v = (\<Sum>w<NODE_COUNT. if 0 < orig g v w then edgeFlow g v w else 0)"
  unfolding out_flow_def by (rule sum.inter_filter) simp

lemma pair_bounded_no_antiparallel:
  assumes "wf_graph g" "fresh g" "no_antiparallel g"
  shows "pair_bounded g"
proof -
  have "orig g u v + orig g v u \<le> INT_MAX" if "u < NODE_COUNT" "v < NODE_COUNT" for u v
  proof -
    have r: "orig g u v \<le> INT_MAX" "orig g v u \<le> INT_MAX" "0 \<le> orig g u v"
      using assms(1,2) that by (simp_all add: wf_graph_def fresh_def)
    show ?thesis
    proof (cases "0 < orig g u v")
      case True
      then have "orig g v u = 0" using assms(3) that by (simp add: no_antiparallel_def)
      then show ?thesis using r by simp
    next
      case False
      then have "orig g u v = 0" using r by simp
      then show ?thesis using r by simp
    qed
  qed
  then show ?thesis by (simp add: pair_bounded_def)
qed

lemma netout_in_out:
  assumes inv: "flow_inv g0 g" and pb: "pair_bounded g0" and na: "no_antiparallel g0"
    and v: "v < NODE_COUNT"
  shows "netout g v = out_flow g v - in_flow g v"
proof -
  have pt: "orig g v w - res g v w =
      (if 0 < orig g v w then edgeFlow g v w else 0) - (if 0 < orig g w v then edgeFlow g w v else 0)"
    if w: "w < NODE_COUNT" for w
  proof -
    have f: "orig g v w = orig g0 v w" "orig g w v = orig g0 w v"
      "0 \<le> orig g0 v w" "0 \<le> orig g0 w v" "0 \<le> res g v w" "0 \<le> res g w v"
      "res g v w + res g w v = orig g0 v w + orig g0 w v"
      using inv v w by (simp_all add: flow_inv_def)
    have b: "orig g0 v w + orig g0 w v \<le> INT_MAX" using pb v w by (simp add: pair_bounded_def)
    consider "0 < orig g0 v w" | "orig g0 v w = 0" "0 < orig g0 w v"
      | "orig g0 v w = 0" "orig g0 w v = 0"
      using f(3,4) by linarith
    then show ?thesis
    proof cases
      case 1
      then have z: "orig g0 w v = 0" using na v w by (simp add: no_antiparallel_def)
      have "int32 (orig g v w - res g v w) = orig g v w - res g v w"
        using f b z by (intro int32_id) simp_all
      then show ?thesis using 1 z f by (simp add: edgeFlow_def)
    next
      case 2
      have "int32 (orig g w v - res g w v) = orig g w v - res g w v"
        using f b 2 by (intro int32_id) simp_all
      then show ?thesis using 2 f by (simp add: edgeFlow_def)
    next
      case 3
      then show ?thesis using f by simp
    qed
  qed
  have "netout g v = (\<Sum>w<NODE_COUNT.
      (if 0 < orig g v w then edgeFlow g v w else 0) - (if 0 < orig g w v then edgeFlow g w v else 0))"
    unfolding netout_def by (intro sum.cong refl pt) simp
  then show ?thesis by (simp add: sum_subtractf in_flow_eq out_flow_eq)
qed

text \<open>
  C8, as the code behaves: on a graph of six by six edges whose residual capacities
  start as the original capacities, none negative and all in the range of \<open>int\<close>, and
  in which no edge has an opposite edge, \<open>fordFulkerson\<close> returns, and at every node
  but the source and the target the flows of the edges that enter it add up to the
  flows of the edges that leave it.
\<close>

theorem flow_conserved:
  assumes "wf_graph g" "fresh g" "no_antiparallel g"
  shows "\<exists>flow g' out. fordFulkerson g = Some (Inr (flow, g', out)) \<and>
     (\<forall>u<NODE_COUNT. \<forall>v<NODE_COUNT. orig g' u v = orig g u v) \<and>
     (\<forall>v<NODE_COUNT. v \<noteq> SOURCE_NODE_ID \<and> v \<noteq> TARGET_NODE_ID \<longrightarrow>
        in_flow g' v = out_flow g' v)"
proof -
  have sq: "square g" using assms(1) by (simp add: wf_graph_def)
  have pb: "pair_bounded g" using assms by (rule pair_bounded_no_antiparallel)
  from fordFulkerson_run [OF assms(1)] obtain flow g' out p where
    r: "fordFulkerson g = Some (Inr (flow, g', out))" "ff_run g (g', p, flow)"
    by blast
  have inv: "flow_inv g g'" using ff_run_flow_inv [OF sq assms(2) pb r(2)] by simp
  have "in_flow g' v = out_flow g' v" if "v < NODE_COUNT" "v \<noteq> 0 \<and> v \<noteq> 5" for v
  proof -
    have "netout g' v = 0" using inv that by (simp add: flow_inv_def)
    then show ?thesis using netout_in_out [OF inv pb assms(3) that(1)] by simp
  qed
  moreover have "\<forall>u<NODE_COUNT. \<forall>v<NODE_COUNT. orig g' u v = orig g u v"
    using inv by (simp add: flow_inv_def)
  ultimately show ?thesis using r(1) by blast
qed

lemma no_antiparallel_main_residual_graph: "no_antiparallel main_residual_graph"
  by (simp add: no_antiparallel_def all_less_6 orig_def main_residual_graph_eq mk_graph_def)

theorem flow_conserved_witness:
  "wf_graph main_residual_graph \<and> fresh main_residual_graph \<and>
   no_antiparallel main_residual_graph \<and>
   (\<exists>flow g' out. fordFulkerson main_residual_graph = Some (Inr (flow, g', out)) \<and>
      in_flow g' 1 = out_flow g' 1 \<and> in_flow g' 2 = out_flow g' 2 \<and>
      in_flow g' 3 = out_flow g' 3 \<and> in_flow g' 4 = out_flow g' 4)"
proof -
  from flow_conserved [OF wf_main_residual_graph fresh_main_residual_graph
    no_antiparallel_main_residual_graph]
  obtain flow g' out where r: "fordFulkerson main_residual_graph = Some (Inr (flow, g', out))"
    and c: "\<forall>v<NODE_COUNT. v \<noteq> SOURCE_NODE_ID \<and> v \<noteq> TARGET_NODE_ID \<longrightarrow>
        in_flow g' v = out_flow g' v"
    by blast
  have "in_flow g' 1 = out_flow g' 1 \<and> in_flow g' 2 = out_flow g' 2 \<and>
      in_flow g' 3 = out_flow g' 3 \<and> in_flow g' 4 = out_flow g' 4"
    using c by simp
  then show ?thesis
    using r wf_main_residual_graph fresh_main_residual_graph
      no_antiparallel_main_residual_graph by blast
qed

text \<open>
  C8, as the specification states it, fails at a node with two opposite edges: at \<open>w\<close>
  the edges that enter carry 3 (from \<open>s\<close>) and \<open>- 3\<close> (from \<open>x\<close>), and the edge that
  leaves carries 3 (to \<open>x\<close>).
\<close>

theorem opposite_edges_not_conserved:
  "fordFulkerson anti_graph = Some (Inr (3, anti_graph_after, anti_output)) \<and>
   in_flow anti_graph_after 1 = 0 \<and> out_flow anti_graph_after 1 = 3"
proof (intro conjI)
  show "fordFulkerson anti_graph = Some (Inr (3, anti_graph_after, anti_output))"
    by (rule anti_fordFulkerson)
  show "in_flow anti_graph_after 1 = 0"
    by (simp add: in_flow_eq sum_less_6 edgeFlow_def int32_def orig_def res_def
        anti_graph_after_def mk_graph_def)
  show "out_flow anti_graph_after 1 = 3"
    by (simp add: out_flow_eq sum_less_6 edgeFlow_def int32_def orig_def res_def
        anti_graph_after_def mk_graph_def)
qed

end
